theory Spec2Isabelle
  imports Main "HOL-Library.AList" "HOL-Library.Code_Target_Nat"
begin

section \<open>JavaScript strings\<close>

text \<open>
  A JavaScript string is a sequence of UTF-16 code units; \<open>length\<close>, \<open>indexOf\<close>,
  \<open>substring\<close> and the regular expressions of the parser scripts (none has the \<open>u\<close>
  flag) all count code units.  Every Hebrew letter used by the scripts lies in the basic
  plane, so it is one code unit.  A string is modelled as the list of its code units.
\<close>

type_synonym jstring = "nat list"

definition ascii :: "string \<Rightarrow> jstring" where
  "ascii s = map of_char s"

definition isSpace :: "nat \<Rightarrow> bool" where
  \<comment> \<open>the class \<open>\s\<close>, which is also what \<open>trim\<close> strips: WhiteSpace and LineTerminator\<close>
  "isSpace c \<longleftrightarrow>
     (9 \<le> c \<and> c \<le> 13) \<or> c = 32 \<or> c = 160 \<or> c = 5760 \<or> (8192 \<le> c \<and> c \<le> 8202)
     \<or> c = 8232 \<or> c = 8233 \<or> c = 8239 \<or> c = 8287 \<or> c = 12288 \<or> c = 65279"

definition isDigit :: "nat \<Rightarrow> bool" where
  \<comment> \<open>the class \<open>\d\<close>\<close>
  "isDigit c \<longleftrightarrow> 48 \<le> c \<and> c \<le> 57"

definition trim :: "jstring \<Rightarrow> jstring" where
  "trim s = rev (dropWhile isSpace (rev (dropWhile isSpace s)))"

fun startsWith :: "jstring \<Rightarrow> jstring \<Rightarrow> bool" where
  "startsWith s [] = True"
| "startsWith [] (p # ps) = False"
| "startsWith (c # cs) (p # ps) = (c = p \<and> startsWith cs ps)"

text \<open>
  \<open>firstIndex needle s\<close> is \<open>s.indexOf(needle)\<close>, with \<open>None\<close> for JavaScript's \<open>-1\<close>;
  \<open>indexOf s needle from\<close> is \<open>s.indexOf(needle, from)\<close>, whose start position is clamped
  to the length of \<open>s\<close>.
\<close>

primrec firstIndex :: "jstring \<Rightarrow> jstring \<Rightarrow> nat option" where
  "firstIndex needle [] = (if needle = [] then Some 0 else None)"
| "firstIndex needle (c # cs) =
     (if startsWith (c # cs) needle then Some 0 else map_option Suc (firstIndex needle cs))"

definition indexOf :: "jstring \<Rightarrow> jstring \<Rightarrow> nat \<Rightarrow> nat option" where
  "indexOf s needle from =
     map_option (\<lambda>i. min from (length s) + i) (firstIndex needle (drop from s))"

definition includesStr :: "jstring \<Rightarrow> jstring \<Rightarrow> bool" where
  "includesStr s needle \<longleftrightarrow> firstIndex needle s \<noteq> None"

text \<open>\<open>splitNL s\<close> is \<open>s.split('\n')\<close>.\<close>

fun splitNL :: "jstring \<Rightarrow> jstring list" where
  "splitNL [] = [[]]"
| "splitNL (c # cs) =
     (if c = 10 then [] # splitNL cs
      else (case splitNL cs of [] \<Rightarrow> [[c]] | l # ls \<Rightarrow> (c # l) # ls))"

text \<open>\<open>String num\<close> is the decimal numeral of a non-negative integer.\<close>

fun String :: "nat \<Rightarrow> jstring" where
  "String n = (if n < 10 then [48 + n] else String (n div 10) @ [48 + n mod 10])"

declare String.simps [simp del]

text \<open>
  \<open>parseInt1 c\<close> is \<open>parseInt(c, 10)\<close> for a string of the single code unit \<open>c\<close>;
  \<open>None\<close> is \<open>NaN\<close>, which fails every comparison.
\<close>

definition parseInt1 :: "nat \<Rightarrow> nat option" where
  "parseInt1 c = (if isDigit c then Some (c - 48) else None)"

definition allDigits :: "jstring \<Rightarrow> bool" where
  \<comment> \<open>\<open>line.match(/^[\d]+$/)\<close> on a string\<close>
  "allDigits line \<longleftrightarrow> line \<noteq> [] \<and> list_all isDigit line"

section \<open>The answer-key decoder (parseAnswerKey)\<close>

datatype section_key = Verbal1 | Verbal2 | Quantitative1 | Quantitative2 | English1 | English2

datatype error = TypeError

definition answerKeyMarker :: jstring where
  "answerKeyMarker =
     [1502, 1508, 1514, 1495, 32, 1514, 1513, 1493, 1489, 1493, 1514, 32,
      1504, 1499, 1493, 1504, 1493, 1514]"

definition markerVerbal1 :: jstring where
  "markerVerbal1 =
     [1495, 1513, 1497, 1489, 1492, 32, 1502, 1497, 1500, 1493, 1500, 1497, 1514, 32, 45, 32,
      1508, 1512, 1511, 32, 1512, 1488, 1513, 1493, 1503]"

definition markerVerbal2 :: jstring where
  "markerVerbal2 =
     [1495, 1513, 1497, 1489, 1492, 32, 1502, 1497, 1500, 1493, 1500, 1497, 1514, 32, 45, 32,
      1508, 1512, 1511, 32, 1513, 1504, 1497]"

definition markerQuantitative1 :: jstring where
  "markerQuantitative1 =
     [1495, 1513, 1497, 1489, 1492, 32, 1499, 1502, 1493, 1514, 1497, 1514, 32, 45, 32,
      1508, 1512, 1511, 32, 1512, 1488, 1513, 1493, 1503]"

definition markerQuantitative2 :: jstring where
  "markerQuantitative2 =
     [1495, 1513, 1497, 1489, 1492, 32, 1499, 1502, 1493, 1514, 1497, 1514, 32, 45, 32,
      1508, 1512, 1511, 32, 1513, 1504, 1497]"

definition markerEnglish1 :: jstring where
  "markerEnglish1 =
     [1488, 1504, 1490, 1500, 1497, 1514, 32, 45, 32, 1508, 1512, 1511, 32,
      1512, 1488, 1513, 1493, 1503]"

definition markerEnglish2 :: jstring where
  "markerEnglish2 =
     [1488, 1504, 1490, 1500, 1497, 1514, 32, 45, 32, 1508, 1512, 1511, 32, 1513, 1504, 1497]"

definition scoringMarker :: jstring where
  \<comment> \<open>the line that ends the answer-key block\<close>
  "scoringMarker = [1495, 1497, 1513, 1493, 1489, 32, 1488, 1493, 1502, 1491, 1503]"

definition sections :: "(jstring \<times> section_key) list" where
  "sections =
     [(markerVerbal1, Verbal1), (markerVerbal2, Verbal2),
      (markerQuantitative1, Quantitative1), (markerQuantitative2, Quantitative2),
      (markerEnglish1, English1), (markerEnglish2, English2)]"

text \<open>
  The decoded key is an object from section key to an object from question number to
  answer.  Both are kept as association lists with one pair per key, in the order in which
  the keys were first written: \<open>AList.update\<close> overwrites the value of a key that is
  there and appends a new key, \<open>map_of\<close> reads a key.
\<close>

type_synonym answer_key = "(section_key \<times> (nat \<times> nat) list) list"

record key_state =
  answerKey :: answer_key
  currentSection :: "section_key option"
  questionNumbers :: "nat list option"
  collectedAnswers :: jstring

text \<open>
  The loop of \<open>saveAnswers\<close> over \<open>j\<close>, on the question numbers and answer characters that
  remain.  Writing into \<open>answerKey[currentSection]\<close> when that object does not exist is a
  TypeError in JavaScript.
\<close>

fun saveLoop :: "answer_key \<Rightarrow> section_key \<Rightarrow> nat list \<Rightarrow> jstring \<Rightarrow> error + answer_key" where
  "saveLoop ak sec (q # qs) (c # cs) =
     (case parseInt1 c of
        None \<Rightarrow> saveLoop ak sec qs cs
      | Some answer \<Rightarrow>
          if 1 \<le> answer \<and> answer \<le> 4 then
            (case map_of ak sec of
               None \<Rightarrow> Inl TypeError
             | Some m \<Rightarrow>
                 saveLoop (AList.update sec (AList.update q answer m) ak) sec qs cs)
          else saveLoop ak sec qs cs)"
| "saveLoop ak sec qs cs = Inr ak"

definition saveAnswers :: "key_state \<Rightarrow> error + answer_key" where
  "saveAnswers st =
     (case (currentSection st, questionNumbers st) of
        (Some sec, Some qs) \<Rightarrow>
          if length (collectedAnswers st) > 0
          then saveLoop (answerKey st) sec qs (collectedAnswers st)
          else Inr (answerKey st)
      | _ \<Rightarrow> Inr (answerKey st))"

text \<open>
  The \<open>while\<close> loop that decodes the sentinel row: \<open>rest\<close> is \<open>line.substring(pos)\<close>, the
  result is the list of numbers pushed from here on.
\<close>

lemma String_not_Nil: "String n \<noteq> []"
  by (subst String.simps) simp

lemma startsWith_length: "startsWith s p \<Longrightarrow> length p \<le> length s"
  by (induction s p rule: startsWith.induct) auto

function sentinelLoop :: "jstring \<Rightarrow> nat \<Rightarrow> nat list" where
  "sentinelLoop rest num =
     (if rest \<noteq> [] \<and> startsWith rest (String num)
      then num # sentinelLoop (drop (length (String num)) rest) (num + 1)
      else [])"
  by pat_completeness auto
termination
  by (relation "measure (\<lambda>(rest, num). length rest)") (auto simp: String_not_Nil)

declare sentinelLoop.simps [simp del]

text \<open>The three blocks of the body of the line loop, on the trimmed line.\<close>

definition matchSection :: "jstring \<Rightarrow> (jstring \<times> section_key) option" where
  \<comment> \<open>the first entry of \<open>sections\<close> whose pattern the line includes\<close>
  "matchSection line = find (\<lambda>sec. includesStr line (fst sec)) sections"

definition headerStep :: "key_state \<Rightarrow> jstring \<Rightarrow> error + key_state" where
  "headerStep st line =
     (case matchSection line of
        None \<Rightarrow> Inr st
      | Some sec \<Rightarrow>
          (case saveAnswers st of
             Inl e \<Rightarrow> Inl e
           | Inr ak \<Rightarrow>
               Inr \<lparr>answerKey = AList.update (snd sec) [] ak, currentSection = Some (snd sec),
                    questionNumbers = None, collectedAnswers = []\<rparr>))"

definition collect :: "key_state \<Rightarrow> jstring \<Rightarrow> nat list \<Rightarrow> error + key_state" where
  \<comment> \<open>\<open>collectedAnswers += line\<close> and the save once the stream is long enough\<close>
  "collect st line qs =
     (let st1 = st\<lparr>collectedAnswers := collectedAnswers st @ line\<rparr> in
      if length (collectedAnswers st1) \<ge> length qs then
        (case saveAnswers st1 of
           Inl e \<Rightarrow> Inl e
         | Inr ak \<Rightarrow> Inr (st1\<lparr>answerKey := ak, questionNumbers := None, collectedAnswers := []\<rparr>))
      else Inr st1)"

definition digitStep :: "key_state \<Rightarrow> jstring \<Rightarrow> error + key_state" where
  "digitStep st line =
     (if currentSection st \<noteq> None \<and> allDigits line \<and> length line > 10 then
        if startsWith line (ascii ''123456789'') then
          Inr (st\<lparr>questionNumbers := Some (sentinelLoop line 1), collectedAnswers := []\<rparr>)
        else (case questionNumbers st of None \<Rightarrow> Inr st | Some qs \<Rightarrow> collect st line qs)
      else
        (case questionNumbers st of
           None \<Rightarrow> Inr st
         | Some qs \<Rightarrow>
             if currentSection st \<noteq> None \<and> allDigits line then collect st line qs else Inr st))"

fun scanLines :: "key_state \<Rightarrow> jstring list \<Rightarrow> error + key_state" where
  "scanLines st [] = Inr st"
| "scanLines st (l # ls) =
     (let line = trim l in
      case headerStep st line of
        Inl e \<Rightarrow> Inl e
      | Inr st1 \<Rightarrow>
          (case digitStep st1 line of
             Inl e \<Rightarrow> Inl e
           | Inr st2 \<Rightarrow>
               if includesStr line scoringMarker then
                 (case saveAnswers st2 of
                    Inl e \<Rightarrow> Inl e
                  | Inr ak \<Rightarrow> Inr (st2\<lparr>answerKey := ak\<rparr>))
               else scanLines st2 ls))"

definition initialState :: key_state where
  "initialState =
     \<lparr>answerKey = [], currentSection = None, questionNumbers = None,
      collectedAnswers = []\<rparr>"

definition parseAnswerKey :: "jstring \<Rightarrow> error + answer_key" where
  "parseAnswerKey examText =
     (case indexOf examText answerKeyMarker 0 of
        None \<Rightarrow> Inr []
      | Some keyStart \<Rightarrow>
          (case scanLines initialState (splitNL (drop keyStart examText)) of
             Inl e \<Rightarrow> Inl e
           | Inr st \<Rightarrow> Inr (answerKey st)))"


text \<open>
  The sentinel row of a section of 23 questions, and a line of answer digits: not empty,
  every character one of the digits 1 to 4.
\<close>

definition sentinelRow :: jstring where
  "sentinelRow = ascii ''1234567891011121314151617181920212223''"

definition answerDigits :: "jstring \<Rightarrow> bool" where
  "answerDigits l \<longleftrightarrow> l \<noteq> [] \<and> (\<forall>c\<in>set l. 49 \<le> c \<and> c \<le> 52)"




section \<open>The section segmenter (findSectionMarker, extractHebrewSection)\<close>

definition tocLandmark :: jstring where
  "tocLandmark = [1492, 1494, 1502, 1503, 32, 1492, 1502, 1493, 1511, 1510, 1489]"

definition garbledQuantitative1 :: jstring where
  "garbledQuantitative1 =
     [1495, 1513, 1497, 1489, 1492, 32, 258, 1502, 1493, 1514, 1497, 1514, 32, 45, 32,
      1508, 1512, 1511, 32, 1512, 1488, 1513, 1493, 1503]"

definition garbledQuantitative2 :: jstring where
  "garbledQuantitative2 =
     [1495, 1513, 1497, 1489, 1492, 32, 258, 1502, 1493, 1514, 1497, 1514, 32, 45, 32,
      1508, 1512, 1511, 32, 1513, 1504, 1497]"

definition SECTION_ORDER :: "jstring list" where
  "SECTION_ORDER =
     [markerVerbal1, markerVerbal2, markerQuantitative1, markerQuantitative2,
      markerEnglish1, markerEnglish2, answerKeyMarker]"

definition SECTION_VARIANTS :: "(jstring \<times> jstring list) list" where
  "SECTION_VARIANTS =
     [(markerVerbal1, [markerVerbal1]),
      (markerVerbal2, [markerVerbal2]),
      (markerQuantitative1, [markerQuantitative1, garbledQuantitative1]),
      (markerQuantitative2, [markerQuantitative2, garbledQuantitative2]),
      (markerEnglish1, [markerEnglish1]),
      (markerEnglish2, [markerEnglish2]),
      (answerKeyMarker, [answerKeyMarker])]"

definition variantsOf :: "jstring \<Rightarrow> jstring list" where
  \<comment> \<open>\<open>SECTION_VARIANTS[marker] || [marker]\<close>\<close>
  "variantsOf marker = (case map_of SECTION_VARIANTS marker of Some vs \<Rightarrow> vs | None \<Rightarrow> [marker])"

definition earlier :: "nat option \<Rightarrow> nat option \<Rightarrow> nat option" where
  \<comment> \<open>one round of the loop of \<open>findSectionMarker\<close>: \<open>minIdx\<close> after looking at \<open>idx\<close>\<close>
  "earlier idx minIdx =
     (case idx of
        None \<Rightarrow> minIdx
      | Some i \<Rightarrow> (case minIdx of None \<Rightarrow> Some i | Some m \<Rightarrow> if i < m then Some i else Some m))"

definition findSectionMarker :: "jstring \<Rightarrow> jstring \<Rightarrow> nat \<Rightarrow> nat option" where
  "findSectionMarker text marker startFrom =
     fold (\<lambda>variant minIdx. earlier (indexOf text variant startFrom) minIdx)
       (variantsOf marker) None"

fun arrayIndexOf :: "'a list \<Rightarrow> 'a \<Rightarrow> nat option" where
  "arrayIndexOf [] x = None"
| "arrayIndexOf (y # ys) x = (if y = x then Some 0 else map_option Suc (arrayIndexOf ys x))"

text \<open>
  The head of \<open>extractHebrewSection\<close> and of \<open>extractEnglishSection\<close>, the same in
  both: where the search for a header starts, behind the table of contents; where the
  section ends, given where it starts; and the two boundaries, \<open>None\<close> when the header is
  not found and the function returns no question.
\<close>

definition searchStart :: "jstring \<Rightarrow> nat" where
  "searchStart examText =
     (case indexOf examText tocLandmark 1000 of
        None \<Rightarrow> 1000
      | Some tocEnd \<Rightarrow> if tocEnd > 0 then tocEnd else 1000)"

definition sectionEndFrom :: "jstring \<Rightarrow> jstring \<Rightarrow> nat \<Rightarrow> nat" where
  "sectionEndFrom examText sectionMarker sectionStart =
     (let sectionEnd =
            (case arrayIndexOf SECTION_ORDER sectionMarker of
               None \<Rightarrow> length examText
             | Some currentIdx \<Rightarrow>
                 if currentIdx < length SECTION_ORDER - 1 then
                   (case findSectionMarker examText (SECTION_ORDER ! (currentIdx + 1))
                           (sectionStart + length sectionMarker) of
                      None \<Rightarrow> length examText
                    | Some nextIdx \<Rightarrow> nextIdx)
                 else length examText)
      in case indexOf examText answerKeyMarker sectionStart of
           None \<Rightarrow> sectionEnd
         | Some answerKeyIdx \<Rightarrow> if answerKeyIdx < sectionEnd then answerKeyIdx else sectionEnd)"

definition sectionBoundary :: "jstring \<Rightarrow> jstring \<Rightarrow> (nat \<times> nat) option" where
  "sectionBoundary examText sectionMarker =
     (case findSectionMarker examText sectionMarker (searchStart examText) of
        None \<Rightarrow> None
      | Some sectionStart \<Rightarrow>
          Some (sectionStart, sectionEndFrom examText sectionMarker sectionStart))"


definition overlapAt :: "jstring \<Rightarrow> jstring \<Rightarrow> nat \<Rightarrow> bool" where
  \<comment> \<open>an occurrence of \<open>q\<close> can start \<open>d\<close> code units into an occurrence of \<open>p\<close>\<close>
  "overlapAt p q d \<longleftrightarrow>
     take (min (length p - d) (length q)) (drop d p) = take (min (length p - d) (length q)) q"


section \<open>Regular expressions\<close>

text \<open>
  The regular expressions of the scripts, with JavaScript's backtracking semantics.  An
  expression is a list of alternatives, an alternative a sequence of items: a literal, a
  group of literal alternatives, a character class repeated between \<open>lo\<close> and \<open>hi\<close>
  times (greedy: longest first; lazy: shortest first), \<open>^\<close> (no \<open>m\<close> flag: the start
  of the string), \<open>$\<close>, \<open>\b\<close> and a lookahead.  \<open>matchItems\<close> matches a sequence at
  the start of \<open>s\<close>, \<open>prev\<close> being the code unit before it, and returns the piece of
  text that each item took, the first way that succeeds in JavaScript's order.
\<close>

datatype item =
    Lit jstring
  | Alt "jstring list"
  | Rep "nat \<Rightarrow> bool" nat "nat option" bool
  | Start
  | End
  | Boundary
  | Ahead "jstring \<Rightarrow> bool"

type_synonym regex = "item list list"

definition isWord :: "nat \<Rightarrow> bool" where
  "isWord c \<longleftrightarrow> isDigit c \<or> (65 \<le> c \<and> c \<le> 90) \<or> (97 \<le> c \<and> c \<le> 122) \<or> c = 95"

fun firstSome :: "('a \<Rightarrow> 'b option) \<Rightarrow> 'a list \<Rightarrow> 'b option" where
  "firstSome f [] = None"
| "firstSome f (x # xs) = (case f x of Some y \<Rightarrow> Some y | None \<Rightarrow> firstSome f xs)"

definition before :: "nat option \<Rightarrow> jstring \<Rightarrow> nat option" where
  "before prev piece = (if piece = [] then prev else Some (last piece))"

definition atBoundary :: "nat option \<Rightarrow> jstring \<Rightarrow> bool" where
  "atBoundary prev s \<longleftrightarrow>
     (case prev of None \<Rightarrow> False | Some c \<Rightarrow> isWord c) \<noteq> (case s of [] \<Rightarrow> False | c # _ \<Rightarrow> isWord c)"

primrec matchItems :: "item list \<Rightarrow> nat option \<Rightarrow> jstring \<Rightarrow> jstring list option" where
  "matchItems [] prev s = Some []"
| "matchItems (it # its) prev s =
     (case it of
        Lit l \<Rightarrow>
          if startsWith s l
          then map_option ((#) l) (matchItems its (before prev l) (drop (length l) s))
          else None
      | Alt ls \<Rightarrow>
          firstSome
            (\<lambda>l. if startsWith s l
                 then map_option ((#) l) (matchItems its (before prev l) (drop (length l) s))
                 else None) ls
      | Rep cls lo hi greedy \<Rightarrow>
          (let run = length (takeWhile cls s);
               top = (case hi of None \<Rightarrow> run | Some h \<Rightarrow> min h run);
               ks = (if greedy then rev [lo..<Suc top] else [lo..<Suc top])
           in firstSome
                (\<lambda>k. map_option ((#) (take k s))
                       (matchItems its (before prev (take k s)) (drop k s))) ks)
      | Start \<Rightarrow> if prev = None then map_option ((#) []) (matchItems its prev s) else None
      | End \<Rightarrow> if s = [] then map_option ((#) []) (matchItems its prev s) else None
      | Boundary \<Rightarrow>
          if atBoundary prev s then map_option ((#) []) (matchItems its prev s) else None
      | Ahead ok \<Rightarrow> if ok s then map_option ((#) []) (matchItems its prev s) else None)"

definition matchAt :: "regex \<Rightarrow> nat option \<Rightarrow> jstring \<Rightarrow> jstring list option" where
  "matchAt rx prev s = firstSome (\<lambda>its. matchItems its prev s) rx"

text \<open>
  \<open>s.replace(rx, rep)\<close> and \<open>s.matchAll(rx)\<close> for an expression with the \<open>g\<close> flag: the
  leftmost match from the current position, then on from its end (one code unit further
  after an empty match).
\<close>

function replaceAll :: "regex \<Rightarrow> jstring \<Rightarrow> nat option \<Rightarrow> jstring \<Rightarrow> jstring" where
  "replaceAll rx rep prev s =
     (case matchAt rx prev s of
        None \<Rightarrow> (case s of [] \<Rightarrow> [] | c # cs \<Rightarrow> c # replaceAll rx rep (Some c) cs)
      | Some pieces \<Rightarrow>
          (let n = length (concat pieces) in
           if n = 0 \<or> s = [] then
             (case s of [] \<Rightarrow> rep | c # cs \<Rightarrow> rep @ c # replaceAll rx rep (Some c) cs)
           else rep @ replaceAll rx rep (before prev (take n s)) (drop n s)))"
  by pat_completeness auto
termination
  by (relation "measure (\<lambda>(rx, rep, prev, s). length s)") auto

declare replaceAll.simps [simp del]

function matchAll :: "regex \<Rightarrow> nat option \<Rightarrow> jstring \<Rightarrow> jstring list list" where
  "matchAll rx prev s =
     (case matchAt rx prev s of
        None \<Rightarrow> (case s of [] \<Rightarrow> [] | c # cs \<Rightarrow> matchAll rx (Some c) cs)
      | Some pieces \<Rightarrow>
          (let n = length (concat pieces) in
           if n = 0 \<or> s = [] then
             (case s of [] \<Rightarrow> [pieces] | c # cs \<Rightarrow> pieces # matchAll rx (Some c) cs)
           else pieces # matchAll rx (before prev (take n s)) (drop n s)))"
  by pat_completeness auto
termination
  by (relation "measure (\<lambda>(rx, prev, s). length s)") auto

declare matchAll.simps [simp del]

section \<open>The text normalizer (cleanText)\<close>

definition rxSpaces :: regex where "rxSpaces = [[Rep isSpace 1 None True]]"
definition rxEnds :: regex where
  "rxEnds = [[Start, Rep isSpace 1 None True], [Rep isSpace 1 None True, End]]"
definition rxPageNumber :: regex where
  "rxPageNumber = [[Lit (ascii ''- ''), Rep isDigit 1 None True, Lit (ascii '' -'')]]"

definition seasonAviv :: jstring where "seasonAviv = [1488, 1489, 1497, 1489]"
definition seasonKayitz :: jstring where "seasonKayitz = [1511, 1497, 1509]"
definition seasonStav :: jstring where "seasonStav = [1505, 1514, 1497, 1493]"

definition rxExamDate :: regex where
  "rxExamDate =
     [[Lit [1502, 1493, 1506, 1491, 32], Alt [seasonAviv, seasonKayitz, seasonStav],
       Lit [32], Rep isDigit 4 (Some 4) True]]"

definition notDot :: "nat \<Rightarrow> bool" where "notDot c \<longleftrightarrow> c \<noteq> 46"

definition rxRights :: regex where
  "rxRights =
     [[Lit [1499, 1500, 32, 1492, 1494, 1499, 1493, 1497, 1493, 1514, 32,
            1513, 1502, 1493, 1512, 1493, 1514],
       Rep notDot 1 None True, Lit [46]]]"

definition rxCopyright :: regex where
  "rxCopyright = [[Lit [169], Rep notDot 1 None True, Lit [46]]]"

definition rxNoCopy :: regex where
  "rxNoCopy =
     [[Lit [1488, 1497, 1503, 32, 1500, 1492, 1506, 1514, 1497, 1511],
       Rep notDot 1 None True, Lit [46]]]"

definition squeezeSpaces :: "jstring \<Rightarrow> jstring" where
  \<comment> \<open>\<open>.replace(/\s+/g, ' ').replace(/^\s+|\s+$/g, '')\<close>\<close>
  "squeezeSpaces text = replaceAll rxEnds [] None (replaceAll rxSpaces [32] None text)"

definition removeBoilerplate :: "jstring \<Rightarrow> jstring" where
  \<comment> \<open>the five replacements that delete page numbers, exam dates and copyright notices\<close>
  "removeBoilerplate text =
     replaceAll rxNoCopy [] None
       (replaceAll rxCopyright [] None
         (replaceAll rxRights [] None
           (replaceAll rxExamDate [] None
             (replaceAll rxPageNumber [] None text))))"

definition cleanText :: "jstring \<Rightarrow> jstring" where
  "cleanText text =
     (if text = [] then [] else trim (removeBoilerplate (squeezeSpaces text)))"


text \<open>
  For the proofs: what the first replacement of \<open>cleanText\<close> computes, written as a
  recursion; a text whose white space is single blanks; a text without its trailing white
  space.
\<close>

function collapse :: "jstring \<Rightarrow> jstring" where
  "collapse [] = []"
| "collapse (c # cs) =
     (if isSpace c then 32 # collapse (dropWhile isSpace cs) else c # collapse cs)"
  by pat_completeness auto
termination
  by (relation "measure length") (auto simp: length_dropWhile_le less_Suc_eq_le)

fun spaced :: "jstring \<Rightarrow> bool" where
  "spaced [] = True"
| "spaced (c # cs) =
     ((isSpace c \<longrightarrow> c = 32 \<and> (case cs of [] \<Rightarrow> True | d # _ \<Rightarrow> \<not> isSpace d)) \<and> spaced cs)"

definition stripTail :: "jstring \<Rightarrow> jstring" where
  "stripTail s = rev (dropWhile isSpace (rev s))"

section \<open>The inline-option recognizer (parseInlineHebrewOptions)\<close>

definition isParen :: "nat \<Rightarrow> bool" where
  \<comment> \<open>the class \<open>[)(]\<close>\<close>
  "isParen c \<longleftrightarrow> c = 40 \<or> c = 41"

definition isIndex :: "nat \<Rightarrow> bool" where
  \<comment> \<open>the class \<open>[1-4]\<close>\<close>
  "isIndex c \<longleftrightarrow> 49 \<le> c \<and> c \<le> 52"

definition notParen :: "nat \<Rightarrow> bool" where
  \<comment> \<open>the class \<open>[^)(]\<close>\<close>
  "notParen c \<longleftrightarrow> \<not> isParen c"

definition notSpaceParen :: "nat \<Rightarrow> bool" where
  \<comment> \<open>the class \<open>[^\s()]\<close>\<close>
  "notSpaceParen c \<longleftrightarrow> \<not> isSpace c \<and> \<not> isParen c"

definition anyChar :: "nat \<Rightarrow> bool" where
  \<comment> \<open>\<open>.\<close>: every code unit but the line terminators\<close>
  "anyChar c \<longleftrightarrow> c \<noteq> 10 \<and> c \<noteq> 13 \<and> c \<noteq> 8232 \<and> c \<noteq> 8233"

definition rxMarkerAhead :: "item list" where
  \<comment> \<open>\<open>\s*[)(][1-4][)(]\<close>, the first alternative of the lookahead of \<open>rxLtr\<close>\<close>
  "rxMarkerAhead =
     [Rep isSpace 0 None True, Rep isParen 1 (Some 1) True, Rep isIndex 1 (Some 1) True,
      Rep isParen 1 (Some 1) True]"

definition rxRtl :: regex where
  \<comment> \<open>\<open>/([^\s()]+)\s*\)([1-4])\(/g\<close>: group 1 is piece 0, group 2 is piece 3\<close>
  "rxRtl =
     [[Rep notSpaceParen 1 None True, Rep isSpace 0 None True, Lit [41],
       Rep isIndex 1 (Some 1) True, Lit [40]]]"

definition rxLtr :: regex where
  \<comment> \<open>\<open>/[)(]([1-4])[)(]\s*([^)(]+?)(?=\s*[)(][1-4][)(]|$)/g\<close>: group 1 is piece 1,
      group 2 is piece 4\<close>
  "rxLtr =
     [[Rep isParen 1 (Some 1) True, Rep isIndex 1 (Some 1) True, Rep isParen 1 (Some 1) True,
       Rep isSpace 0 None True, Rep notParen 1 None False,
       Ahead (\<lambda>s. matchItems rxMarkerAhead None s \<noteq> None \<or> s = [])]]"

definition rxMixed :: regex where
  \<comment> \<open>\<open>/([^)(]+?)\s*[)(]([1-4])[)(]/g\<close>: group 1 is piece 0, group 2 is piece 3\<close>
  "rxMixed =
     [[Rep notParen 1 None False, Rep isSpace 0 None True, Rep isParen 1 (Some 1) True,
       Rep isIndex 1 (Some 1) True, Rep isParen 1 (Some 1) True]]"

definition rxLeak :: regex where
  \<comment> \<open>\<open>/^.*[)(][1-4][)(]\s*/\<close>\<close>
  "rxLeak =
     [[Start, Rep anyChar 0 None True, Rep isParen 1 (Some 1) True,
       Rep isIndex 1 (Some 1) True, Rep isParen 1 (Some 1) True, Rep isSpace 0 None True]]"

text \<open>\<open>s.replace(rx, rep)\<close> for an expression without the \<open>g\<close> flag: the first match only.\<close>

fun replaceFirst :: "regex \<Rightarrow> jstring \<Rightarrow> nat option \<Rightarrow> jstring \<Rightarrow> jstring" where
  "replaceFirst rx rep prev [] = (case matchAt rx prev [] of None \<Rightarrow> [] | Some pieces \<Rightarrow> rep)"
| "replaceFirst rx rep prev (c # cs) =
     (case matchAt rx prev (c # cs) of
        None \<Rightarrow> c # replaceFirst rx rep (Some c) cs
      | Some pieces \<Rightarrow> rep @ drop (length (concat pieces)) (c # cs))"

definition piece :: "jstring list \<Rightarrow> nat \<Rightarrow> jstring" where
  \<comment> \<open>the text that item \<open>i\<close> of the expression took in a match\<close>
  "piece m i = (case drop i m of [] \<Rightarrow> [] | p # _ \<Rightarrow> p)"

text \<open>
  \<open>parseInt(s, 10)\<close> on a string of decimal digits, which is what every call in the
  scripts passes (a match of \<open>\d\<close> or of \<open>[1-4]\<close>); \<open>None\<close> is \<open>NaN\<close>.
\<close>

definition parseInt :: "jstring \<Rightarrow> nat option" where
  "parseInt s =
     (if allDigits s then Some (fold (\<lambda>c n. 10 * n + (c - 48)) s 0) else None)"

text \<open>
  The loop over the matches of one pattern, on the pairs of option text and index text:
  it fills the slot of every index between 1 and 4 whose text is not empty, and sets
  \<open>parsed\<close>.
\<close>

fun assign :: "jstring list \<times> bool \<Rightarrow> (jstring \<times> jstring) list \<Rightarrow> jstring list \<times> bool" where
  "assign (opts, parsed) [] = (opts, parsed)"
| "assign (opts, parsed) ((optText, idx) # ms) =
     (case parseInt idx of
        None \<Rightarrow> assign (opts, parsed) ms
      | Some optNum \<Rightarrow>
          if 1 \<le> optNum \<and> optNum \<le> 4 \<and> optText \<noteq> []
          then assign (opts[optNum - 1 := optText], True) ms
          else assign (opts, parsed) ms)"

definition rtlPass :: "jstring \<Rightarrow> jstring list \<times> bool" where
  "rtlPass line =
     (let rtlMatches = matchAll rxRtl None line in
      if length rtlMatches \<ge> 2
      then assign ([[], [], [], []], False) (map (\<lambda>m. (trim (piece m 0), piece m 3)) rtlMatches)
      else ([[], [], [], []], False))"

definition ltrPass :: "jstring \<Rightarrow> jstring list \<times> bool \<Rightarrow> jstring list \<times> bool" where
  "ltrPass line st =
     (if \<not> snd st then
        (let ltrMatches = matchAll rxLtr None line in
         if length ltrMatches \<ge> 2
         then assign st (map (\<lambda>m. (trim (piece m 4), piece m 1)) ltrMatches)
         else st)
      else st)"

definition mixedPass :: "jstring \<Rightarrow> jstring list \<times> bool \<Rightarrow> jstring list \<times> bool" where
  "mixedPass line st =
     (if \<not> snd st then
        (let mixedMatches = matchAll rxMixed None line in
         if length mixedMatches \<ge> 2
         then assign st
                (map (\<lambda>m. (trim (replaceFirst rxLeak [] None (trim (piece m 0))), piece m 3))
                   mixedMatches)
         else st)
      else st)"

definition parseInlineHebrewOptions :: "jstring \<Rightarrow> jstring list option" where
  "parseInlineHebrewOptions line =
     (let st = mixedPass line (ltrPass line (rtlPass line))
      in if snd st then Some (fst st) else None)"




text \<open>
  \<open>s.search(rx)\<close>, and the match object of \<open>s.match(rx)\<close> for an expression without the
  \<open>g\<close> flag: the index and the pieces of the leftmost match.
\<close>

fun search :: "regex \<Rightarrow> nat option \<Rightarrow> jstring \<Rightarrow> (nat \<times> jstring list) option" where
  "search rx prev [] = map_option (Pair 0) (matchAt rx prev [])"
| "search rx prev (c # cs) =
     (case matchAt rx prev (c # cs) of
        Some pieces \<Rightarrow> Some (0, pieces)
      | None \<Rightarrow> map_option (\<lambda>(i, pieces). (Suc i, pieces)) (search rx (Some c) cs))"

definition lastIndexOf :: "jstring \<Rightarrow> jstring \<Rightarrow> nat option" where
  \<comment> \<open>\<open>s.lastIndexOf(needle)\<close>, with \<open>None\<close> for \<open>-1\<close>\<close>
  "lastIndexOf s needle =
     (case filter (\<lambda>i. startsWith (drop i s) needle) (rev [0..<Suc (length s)]) of
        [] \<Rightarrow> None
      | i # _ \<Rightarrow> Some i)"

definition deleteFirst :: "jstring \<Rightarrow> jstring \<Rightarrow> jstring" where
  \<comment> \<open>\<open>s.replace(pattern, '')\<close> for a string \<open>pattern\<close>: its first occurrence is deleted\<close>
  "deleteFirst s pattern =
     (case firstIndex pattern s of
        None \<Rightarrow> s
      | Some i \<Rightarrow> take i s @ drop (i + length pattern) s)"

fun joinSpace :: "jstring list \<Rightarrow> jstring" where
  \<comment> \<open>\<open>lines.join(' ')\<close>\<close>
  "joinSpace [] = []"
| "joinSpace [x] = x"
| "joinSpace (x # y # ys) = x @ 32 # joinSpace (y # ys)"

section \<open>The line loop of the Hebrew extractor (extractHebrewSection)\<close>

text \<open>
  The tests that the loop runs on a trimmed line, in the order of the source: the empty
  line and the page headers and footers are skipped; a question number at the end of the
  line (\<open>.N\<close>) or at its start (\<open>N. \<close>) flushes the open question and opens the next
  one, with the rest of the line as the first line of the stem; a line outside a question
  is left alone; inside a question the line is an inline option sequence when the
  recognizer fills at least two slots, else a standalone option in either orientation,
  else a line of the stem.
\<close>

definition rightsNotice :: jstring where
  "rightsNotice =
     [1499, 1500, 32, 1492, 1494, 1499, 1493, 1497, 1493, 1514, 32, 1513, 1502, 1493, 1512,
      1493, 1514]"

definition noCopyNotice :: jstring where
  "noCopyNotice = [1488, 1497, 1503, 32, 1500, 1492, 1506, 1514, 1497, 1511]"

definition blankPage :: jstring where
  "blankPage = [1506, 1502, 1493, 1491, 32, 1512, 1497, 1511]"

definition examOf :: "jstring \<Rightarrow> jstring" where
  \<comment> \<open>the Hebrew word for an exam date and a blank, before the name of a season\<close>
  "examOf season = [1502, 1493, 1506, 1491, 32] @ season"

definition inThisChapter :: jstring where
  "inThisChapter = [1489, 1508, 1512, 1511, 32, 1494, 1492]"

definition rxPageLine :: regex where
  \<comment> \<open>\<open>/^- \d+ -$/\<close>\<close>
  "rxPageLine =
     [[Start, Lit (ascii ''- ''), Rep isDigit 1 None True, Lit (ascii '' -''), End]]"

definition rxBlankPage :: regex where
  \<comment> \<open>the expression that matches exactly the blank-page notice\<close>
  "rxBlankPage = [[Start, Lit blankPage, End]]"

definition pageFurniture :: "jstring \<Rightarrow> bool" where
  "pageFurniture line \<longleftrightarrow>
     includesStr line rightsNotice
     \<or> includesStr line noCopyNotice
     \<or> search rxPageLine None line \<noteq> None
     \<or> search rxBlankPage None line \<noteq> None
     \<or> includesStr line (examOf seasonAviv)
     \<or> includesStr line (examOf seasonKayitz)
     \<or> includesStr line (examOf seasonStav)
     \<or> includesStr line inThisChapter
     \<or> includesStr line tocLandmark"

definition rxQNumEnd :: regex where
  \<comment> \<open>\<open>qNumEndPattern\<close>, \<open>/\.(\d{1,2})$/\<close>: group 1 is piece 1\<close>
  "rxQNumEnd = [[Lit (ascii ''.''), Rep isDigit 1 (Some 2) True, End]]"

definition rxQNumStart :: regex where
  \<comment> \<open>\<open>qNumStartPattern\<close>, \<open>/^(\d{1,2})\.\s/\<close>: group 1 is piece 1\<close>
  "rxQNumStart =
     [[Start, Rep isDigit 1 (Some 2) True, Lit (ascii ''.''), Rep isSpace 1 (Some 1) True]]"

definition rxQNumStrip :: regex where
  \<comment> \<open>\<open>/^\d{1,2}\.\s*/\<close>\<close>
  "rxQNumStrip =
     [[Start, Rep isDigit 1 (Some 2) True, Lit (ascii ''.''), Rep isSpace 0 None True]]"

text \<open>
  The number of the question that a line opens and the part of the line that goes to the
  stem; the pattern at the end of the line is tried first.  Both patterns take one or two
  digits for the number, so that \<open>parseInt\<close> is never \<open>NaN\<close> here.
\<close>

definition questionNumberOf :: "jstring \<Rightarrow> (nat \<times> jstring) option" where
  "questionNumberOf line =
     (case search rxQNumEnd None line of
        Some endsWithQNum \<Rightarrow>
          map_option (\<lambda>n. (n, trim (replaceFirst rxQNumEnd [] None line)))
            (parseInt (piece (snd endsWithQNum) 1))
      | None \<Rightarrow>
          (case search rxQNumStart None line of
             Some startsWithQNum \<Rightarrow>
               map_option (\<lambda>n. (n, trim (replaceFirst rxQNumStrip [] None line)))
                 (parseInt (piece (snd startsWithQNum) 1))
           | None \<Rightarrow> None))"

definition rxStandalone :: regex where
  \<comment> \<open>\<open>/^([^)(]+?)\s*\)([1-4])\($/\<close>: group 1 is piece 1, group 2 is piece 4\<close>
  "rxStandalone =
     [[Start, Rep notParen 1 None False, Rep isSpace 0 None True, Lit [41],
       Rep isIndex 1 (Some 1) True, Lit [40], End]]"

definition rxStandalone2 :: regex where
  \<comment> \<open>\<open>/^\(([1-4])\)\s*(.+)$/\<close>: group 1 is piece 2, group 2 is piece 5\<close>
  "rxStandalone2 =
     [[Start, Lit [40], Rep isIndex 1 (Some 1) True, Lit [41], Rep isSpace 0 None True,
       Rep anyChar 1 None True, End]]"

datatype line_kind =
    Skipped
  | QuestionNumber nat jstring
  | Outside
  | InlineOptions "jstring list"
  | StandaloneOption nat jstring
  | StemLine

definition standaloneKind :: "jstring \<Rightarrow> line_kind" where
  "standaloneKind line =
     (case search rxStandalone None line of
        Some standaloneOpt \<Rightarrow>
          (case parseInt (piece (snd standaloneOpt) 4) of
             Some optNum \<Rightarrow> StandaloneOption optNum (cleanText (piece (snd standaloneOpt) 1))
           | None \<Rightarrow> StemLine)
      | None \<Rightarrow>
          (case search rxStandalone2 None line of
             Some standaloneOpt2 \<Rightarrow>
               (case parseInt (piece (snd standaloneOpt2) 2) of
                  Some optNum \<Rightarrow>
                    StandaloneOption optNum (cleanText (piece (snd standaloneOpt2) 5))
                | None \<Rightarrow> StemLine)
           | None \<Rightarrow> StemLine))"

definition classifyLine :: "bool \<Rightarrow> jstring \<Rightarrow> line_kind" where
  "classifyLine inQuestion line =
     (if line = [] then Skipped
      else if pageFurniture line then Skipped
      else
        (case questionNumberOf line of
           Some (n, stemPart) \<Rightarrow> QuestionNumber n stemPart
         | None \<Rightarrow>
             if \<not> inQuestion then Outside
             else
               (case parseInlineHebrewOptions line of
                  None \<Rightarrow> standaloneKind line
                | Some lineOptions \<Rightarrow>
                    if length (filter (\<lambda>x. length x > 0) lineOptions) \<ge> 2
                    then InlineOptions lineOptions
                    else standaloneKind line)))"

text \<open>A question block as the extractors return it: a stem and an array of options.\<close>

record extracted =
  ex_stem :: jstring
  ex_options :: "jstring list"

text \<open>
  The state of the loop: \<open>currentQ\<close>, the number of the open question (\<open>None\<close> is
  \<open>null\<close>), the lines of its stem, its four option slots (the array \<open>options\<close>),
  whether options were found, and the blocks of the questions flushed so far (the object
  \<open>questions\<close>, whose entries are read by question number).
\<close>

record extract_state =
  currentQ :: "nat option"
  stemLines :: "jstring list"
  blockOptions :: "jstring list"
  hasFoundOptions :: bool
  blocks :: "(nat \<times> extracted) list"

definition rxMarker :: regex where
  \<comment> \<open>\<open>/[)(][1-4][)(]/\<close>\<close>
  "rxMarker =
     [[Rep isParen 1 (Some 1) True, Rep isIndex 1 (Some 1) True, Rep isParen 1 (Some 1) True]]"

definition rxStrayMarker :: regex where
  \<comment> \<open>\<open>/\s*[)(][1-4][)(]\s*/g\<close>\<close>
  "rxStrayMarker =
     [[Rep isSpace 0 None True, Rep isParen 1 (Some 1) True, Rep isIndex 1 (Some 1) True,
       Rep isParen 1 (Some 1) True, Rep isSpace 0 None True]]"

definition isColon :: "nat \<Rightarrow> bool" where
  "isColon c \<longleftrightarrow> c = 58"

definition rxGiven :: regex where
  \<comment> \<open>the Hebrew word for given and a colon at the start, then \<open>\s*\<close>\<close>
  "rxGiven = [[Start, Lit [1504, 1514, 1493, 1503, 58], Rep isSpace 0 None True]]"

definition rxAsked :: regex where
  \<comment> \<open>the Hebrew word for asked at the start, then \<open>:?\s*\<close>\<close>
  "rxAsked =
     [[Start, Lit [1513, 1493, 1488, 1500, 1497, 1501], Rep isColon 0 (Some 1) True,
       Rep isSpace 0 None True]]"

text \<open>
  \<open>saveCurrentQuestion\<close>, the flush of the open question.  When the loop found no
  options, the recognizer runs on the joined stem, and its result is taken whenever it
  is not null and holds a filled slot; the stem is then cut before the first option
  marker, and after the last dash clause in front of it.  The stem is cleaned, the option
  texts longer than 3 and the stray markers are taken out of it, and the block is stored
  under the number of the question.
\<close>

definition saveCurrentQuestion :: "extract_state \<Rightarrow> extract_state" where
  "saveCurrentQuestion st =
     (case currentQ st of
        None \<Rightarrow> st
      | Some q \<Rightarrow>
          (let stem0 = joinSpace (stemLines st);
               inlineOpts = (if hasFoundOptions st then None else parseInlineHebrewOptions stem0);
               recovered = (case inlineOpts of
                              None \<Rightarrow> False
                            | Some os \<Rightarrow> list_ex (\<lambda>x. length x > 0) os);
               stem1 = (if recovered then
                          (case search rxMarker None stem0 of
                             None \<Rightarrow> stem0
                           | Some firstOpt \<Rightarrow>
                               if fst firstOpt > 0 then
                                 (let stemPart = take (fst firstOpt) stem0 in
                                  cleanText
                                    (case lastIndexOf stemPart (ascii '' - '') of
                                       None \<Rightarrow> stemPart
                                     | Some dashIdx \<Rightarrow>
                                         if dashIdx > 0 then take (dashIdx + 3) stemPart
                                         else stemPart))
                               else stem0)
                        else stem0);
               opts1 = (case inlineOpts of
                          None \<Rightarrow> blockOptions st
                        | Some os \<Rightarrow> if recovered then os else blockOptions st);
               found = (hasFoundOptions st \<or> recovered);
               stem2 = cleanText stem1;
               stem3 = (if found then
                          trim (replaceAll rxStrayMarker [32] None
                                  (fold (\<lambda>opt s. if length opt > 3 then trim (deleteFirst s opt)
                                                  else s)
                                     opts1 stem2))
                        else stem2);
               stem4 = trim (replaceAll rxSpaces [32] None
                               (replaceAll rxAsked [] None (replaceAll rxGiven [] None stem3)));
               opts2 = map cleanText opts1
           in st\<lparr>blockOptions := opts2, hasFoundOptions := found,
                 blocks := AList.update q \<lparr>ex_stem = stem4, ex_options = opts2\<rparr> (blocks st)\<rparr>))"

text \<open>
  The body of the loop over the lines, and the loop with the flush of the last question.
  The option array has four slots throughout, so that every write is inside it.
\<close>

definition lineStep :: "extract_state \<Rightarrow> jstring \<Rightarrow> extract_state" where
  "lineStep st l =
     (let line = trim l in
      case classifyLine (currentQ st \<noteq> None) line of
        Skipped \<Rightarrow> st
      | QuestionNumber n stemPart \<Rightarrow>
          (saveCurrentQuestion st)
            \<lparr>currentQ := Some n,
             stemLines := (if stemPart = [] then [] else [stemPart]),
             blockOptions := [[], [], [], []],
             hasFoundOptions := False\<rparr>
      | Outside \<Rightarrow> st
      | InlineOptions lineOptions \<Rightarrow>
          st\<lparr>blockOptions :=
               fold (\<lambda>j os. if piece lineOptions j \<noteq> [] then os[j := piece lineOptions j] else os)
                 [0..<4] (blockOptions st),
             hasFoundOptions := True\<rparr>
      | StandaloneOption optNum optText \<Rightarrow>
          st\<lparr>blockOptions := (blockOptions st)[optNum - 1 := optText], hasFoundOptions := True\<rparr>
      | StemLine \<Rightarrow> st\<lparr>stemLines := stemLines st @ [line]\<rparr>)"

definition extractLines :: "jstring list \<Rightarrow> (nat \<times> extracted) list" where
  "extractLines lines =
     blocks (saveCurrentQuestion
       (fold (\<lambda>l st. lineStep st l) lines
          \<lparr>currentQ = None, stemLines = [], blockOptions = [[], [], [], []],
           hasFoundOptions = False, blocks = []\<rparr>))"

definition extractHebrewSection :: "jstring \<Rightarrow> jstring \<Rightarrow> (nat \<times> extracted) list" where
  \<comment> \<open>the section text is \<open>examText.substring(sectionStart, sectionEnd)\<close>\<close>
  "extractHebrewSection examText sectionMarker =
     (case sectionBoundary examText sectionMarker of
        None \<Rightarrow> []
      | Some (sectionStart, sectionEnd) \<Rightarrow>
          extractLines (splitNL (take (sectionEnd - sectionStart) (drop sectionStart examText))))"

section \<open>Explanations (cleanExplanation)\<close>

definition isDash :: "nat \<Rightarrow> bool" where
  \<comment> \<open>the class of the hyphen and the en dash\<close>
  "isDash c \<longleftrightarrow> c = 45 \<or> c = 8211"

definition notHyphen :: "nat \<Rightarrow> bool" where
  \<comment> \<open>the class \<open>[^-]\<close>\<close>
  "notHyphen c \<longleftrightarrow> c \<noteq> 45"

definition rxSolutionsHeader :: regex where
  \<comment> \<open>a season, a year, a dash, the word for explanations, up to a page number\<close>
  "rxSolutionsHeader =
     [[Boundary, Alt [seasonAviv, seasonKayitz, seasonStav], Rep isSpace 0 None True,
       Rep isDigit 4 (Some 4) True, Rep isSpace 0 None True, Rep isDash 1 (Some 1) True,
       Rep isSpace 0 None True, Lit [1492, 1505, 1489, 1512, 1497, 1501],
       Rep notHyphen 1 None True, Lit (ascii ''- ''), Rep isDigit 1 None True,
       Lit (ascii '' -'')]]"

definition rxSectionName :: regex where
  \<comment> \<open>the name of a verbal or quantitative section, first or second chapter\<close>
  "rxSectionName =
     [[Lit [1495, 1513, 1497, 1489, 1492, 32],
       Alt [[1502, 1497, 1500, 1493, 1500, 1497, 1514], [1499, 1502, 1493, 1514, 1497, 1514]],
       Rep isSpace 0 None True, Lit [45], Rep isSpace 0 None True, Lit [1508, 1512, 1511],
       Rep isSpace 0 None True, Alt [[1512, 1488, 1513, 1493, 1503], [1513, 1504, 1497]]]]"

definition cleanExplanation :: "jstring \<Rightarrow> jstring" where
  "cleanExplanation text =
     (if text = [] then []
      else trim (replaceAll rxSectionName [] None
                   (replaceAll rxSolutionsHeader [] None (cleanText text))))"

section \<open>The merger and the assembler (parseExam)\<close>

datatype section_type = Verbal | Quantitative | English

datatype language = He | En

record section_def =
  def_key :: section_key
  def_type :: section_type
  def_section :: nat
  def_marker :: jstring
  def_lang :: language

definition sectionDefs :: "section_def list" where
  "sectionDefs =
     [\<lparr>def_key = Verbal1, def_type = Verbal, def_section = 1, def_marker = markerVerbal1,
        def_lang = He\<rparr>,
      \<lparr>def_key = Verbal2, def_type = Verbal, def_section = 2, def_marker = markerVerbal2,
        def_lang = He\<rparr>,
      \<lparr>def_key = Quantitative1, def_type = Quantitative, def_section = 1,
        def_marker = markerQuantitative1, def_lang = He\<rparr>,
      \<lparr>def_key = Quantitative2, def_type = Quantitative, def_section = 2,
        def_marker = markerQuantitative2, def_lang = He\<rparr>,
      \<lparr>def_key = English1, def_type = English, def_section = 1, def_marker = markerEnglish1,
        def_lang = En\<rparr>,
      \<lparr>def_key = English2, def_type = English, def_section = 2, def_marker = markerEnglish2,
        def_lang = En\<rparr>]"

fun keyString :: "section_key \<Rightarrow> jstring" where
  "keyString Verbal1 = ascii ''verbal-1''"
| "keyString Verbal2 = ascii ''verbal-2''"
| "keyString Quantitative1 = ascii ''quantitative-1''"
| "keyString Quantitative2 = ascii ''quantitative-2''"
| "keyString English1 = ascii ''english-1''"
| "keyString English2 = ascii ''english-2''"

definition hebrewLabels :: "jstring list" where
  "hebrewLabels = [[1488], [1489], [1490], [1491]]"

definition englishLabels :: "jstring list" where
  "englishLabels = [ascii ''1'', ascii ''2'', ascii ''3'', ascii ''4'']"

definition answerWord :: jstring where
  \<comment> \<open>the Hebrew word for answer and a blank, the head of a placeholder option\<close>
  "answerWord = [1514, 1513, 1493, 1489, 1492, 32]"

definition questionWord :: jstring where
  \<comment> \<open>the Hebrew word for question, the head of a placeholder stem\<close>
  "questionWord = [1513, 1488, 1500, 1492]"

text \<open>
  An option, a question and an exam as \<open>parseExam\<close> writes them.  A field that JavaScript
  leaves \<open>undefined\<close> is \<open>None\<close>.  Of the exam, the display names and the date are left
  out.
\<close>

record option_rec =
  opt_id :: nat
  opt_text :: jstring
  opt_label :: "jstring option"

record question =
  q_id :: jstring
  examId :: jstring
  sectionType :: section_type
  sectionNumber :: nat
  questionNumber :: nat
  language :: language
  stem :: jstring
  options :: "option_rec list"
  correctAnswer :: "nat option"
  explanation :: jstring
  hasFullText :: bool

record section_counts =
  verbal :: nat
  quantitative :: nat
  english :: nat

record exam =
  exam_id :: jstring
  totalQuestions :: nat
  fullTextQuestions :: nat
  sections_of :: section_counts
  questions :: "question list"

definition labelAt :: "jstring list \<Rightarrow> nat \<Rightarrow> jstring option" where
  \<comment> \<open>\<open>labels[i]\<close>\<close>
  "labelAt labels i = (if i < length labels then Some (labels ! i) else None)"

definition shown :: "jstring option \<Rightarrow> jstring" where
  \<comment> \<open>a value inside a template literal\<close>
  "shown v = (case v of None \<Rightarrow> ascii ''undefined'' | Some s \<Rightarrow> s)"

definition placeholderOption :: "jstring list \<Rightarrow> nat \<Rightarrow> option_rec" where
  \<comment> \<open>the placeholder with the identifier \<open>i\<close>, between 1 and 4\<close>
  "placeholderOption labels i =
     \<lparr>opt_id = i, opt_text = answerWord @ shown (labelAt labels (i - 1)),
      opt_label = labelAt labels (i - 1)\<rparr>"

definition extractedOption :: "jstring list \<Rightarrow> nat \<Rightarrow> jstring \<Rightarrow> option_rec" where
  \<comment> \<open>the option at index \<open>i\<close> of the extracted array\<close>
  "extractedOption labels i opt =
     \<lparr>opt_id = i + 1,
      opt_text = (if opt \<noteq> [] then opt else answerWord @ shown (labelAt labels i)),
      opt_label = labelAt labels i\<rparr>"

definition placeholderStem :: "section_def \<Rightarrow> nat \<Rightarrow> jstring" where
  "placeholderStem def qNum =
     (if def_lang def = He
      then questionWord @ ascii '' '' @ String qNum @ ascii '' - '' @ def_marker def
      else ascii ''Question '' @ String qNum @ ascii '' - '' @ def_marker def)"

text \<open>
  The body of the loop over the question numbers of a section: \<open>correctAnswer\<close> is
  \<open>sectionAnswers[qNum]\<close>, \<open>found\<close> is \<open>explanations[qNum]\<close>, \<open>fromExam\<close> is
  \<open>extractedQuestions[qNum]\<close> and \<open>fromSolution\<close> is \<open>solutionQuestions[qNum]\<close>.
\<close>

definition buildQuestion ::
  "jstring \<Rightarrow> section_def \<Rightarrow> nat \<Rightarrow> nat option \<Rightarrow> jstring option \<Rightarrow> extracted option \<Rightarrow>
   extracted option \<Rightarrow> question" where
  "buildQuestion season def qNum correct found fromExam fromSolution =
     (let explanation0 = (case found of None \<Rightarrow> [] | Some e \<Rightarrow> e);
          extracted = (case fromExam of None \<Rightarrow> fromSolution | Some e \<Rightarrow> Some e);
          labels = (if def_lang def = He then hebrewLabels else englishLabels);
          filled = (case extracted of
                      None \<Rightarrow> False
                    | Some e \<Rightarrow> list_ex (\<lambda>x. length x > 0) (ex_options e));
          opts = (case extracted of
                    None \<Rightarrow> map (placeholderOption labels) [1, 2, 3, 4]
                  | Some e \<Rightarrow>
                      if filled
                      then map (\<lambda>(i, opt). extractedOption labels i opt)
                             (zip [0..<length (ex_options e)] (ex_options e))
                      else map (placeholderOption labels) [1, 2, 3, 4]);
          hasValidOptions =
            (case extracted of
               None \<Rightarrow> False
             | Some e \<Rightarrow> filled \<and> length (filter (\<lambda>x. length x > 0) (ex_options e)) \<ge> 2);
          stem0 = (case extracted of None \<Rightarrow> [] | Some e \<Rightarrow> ex_stem e);
          hasValidStem = (stem0 \<noteq> [] \<and> length stem0 > 3 \<and> \<not> startsWith stem0 questionWord);
          stem1 = (if stem0 = [] \<or> length stem0 < 3 then placeholderStem def qNum else stem0)
      in \<lparr>q_id = season @ ascii ''-'' @ keyString (def_key def) @ ascii ''-'' @ String qNum,
          examId = season,
          sectionType = def_type def,
          sectionNumber = def_section def,
          questionNumber = qNum,
          language = def_lang def,
          stem = stem1,
          options = opts,
          correctAnswer = correct,
          explanation = cleanExplanation explanation0,
          hasFullText = (hasValidStem \<or> hasValidOptions)\<rparr>)"

text \<open>
  The results of the extractors for a section are parameters of the model: \<open>fromExam def\<close>
  is \<open>postProcessQuestions(extractHebrewSection(...))\<close>, or the English one, and
  \<open>fromSolution def\<close> is the pair of \<open>extractFromSolution(season, def.key)\<close>, explanations
  and questions.
\<close>

type_synonym exam_blocks = "section_def \<Rightarrow> (nat \<rightharpoonup> extracted)"
type_synonym solution_blocks = "section_def \<Rightarrow> (nat \<rightharpoonup> jstring) \<times> (nat \<rightharpoonup> extracted)"

definition sectionQuestions ::
  "jstring \<Rightarrow> answer_key \<Rightarrow> exam_blocks \<Rightarrow> solution_blocks \<Rightarrow> section_def \<Rightarrow> question list" where
  "sectionQuestions season decoded fromExam fromSolution def =
     (let sectionAnswers = (case map_of decoded (def_key def) of None \<Rightarrow> [] | Some m \<Rightarrow> m);
          questionNums = sort (map fst sectionAnswers)
      in map (\<lambda>qNum. buildQuestion season def qNum (map_of sectionAnswers qNum)
                        (fst (fromSolution def) qNum) (fromExam def qNum)
                        (snd (fromSolution def) qNum))
           questionNums)"

definition assembleExam :: "jstring \<Rightarrow> question list \<Rightarrow> exam" where
  "assembleExam season allQuestions =
     \<lparr>exam_id = season,
      totalQuestions = length allQuestions,
      fullTextQuestions = length (filter hasFullText allQuestions),
      sections_of =
        \<lparr>verbal = length (filter (\<lambda>q. sectionType q = Verbal) allQuestions),
         quantitative = length (filter (\<lambda>q. sectionType q = Quantitative) allQuestions),
         english = length (filter (\<lambda>q. sectionType q = English) allQuestions)\<rparr>,
      questions = allQuestions\<rparr>"

definition parseExam :: "jstring \<Rightarrow> jstring \<Rightarrow> exam_blocks \<Rightarrow> solution_blocks \<Rightarrow> error + exam" where
  "parseExam season examText fromExam fromSolution =
     (case parseAnswerKey examText of
        Inl e \<Rightarrow> Inl e
      | Inr decoded \<Rightarrow>
          Inr (assembleExam season
                 (concat (map (sectionQuestions season decoded fromExam fromSolution)
                            sectionDefs))))"

text \<open>
  The spec's words for an extractor that yields no stem and no options for a question:
  it returns no block for the question number, or a block whose stem and options are all
  empty (\<open>extractHebrewSection\<close> returns such a block for a line that holds a question
  number only).
\<close>

definition noText :: "extracted option \<Rightarrow> bool" where
  "noText block \<longleftrightarrow>
     (case block of
        None \<Rightarrow> True
      | Some e \<Rightarrow> ex_stem e = [] \<and> \<not> list_ex (\<lambda>x. length x > 0) (ex_options e))"

text \<open>
  The script official-parser.cjs.  Its \<open>parseAnswerKey\<close> is the decoder above, with the
  guard of \<open>saveAnswers\<close> written at the call sites, and its section definitions carry the
  same keys, types and section numbers.  Its \<open>parseExam\<close> extracts no stems and no options:
  the loop over the question numbers of a section builds, for every keyed question, a
  placeholder text, four placeholder options, and the explanation of the solution file
  or, without one, a sentence that names the label of the correct option.  Of a question
  the identifier, the Hebrew section name, the difficulty and the tags are left out; of
  the exam the list of questions is kept.
\<close>

definition correctIs :: jstring where
  \<comment> \<open>the Hebrew words for: the correct answer is, a colon and a blank\<close>
  "correctIs =
     [1492, 1514, 1513, 1493, 1489, 1492, 32, 1492, 1504, 1499, 1493, 1504, 1492, 32,
      1492, 1497, 1488, 58, 32]"

record official_question =
  oq_questionNumber :: nat
  oq_sectionType :: section_type
  oq_sectionNumber :: nat
  oq_text :: jstring
  oq_options :: "option_rec list"
  oq_correctAnswer :: "int option"
  oq_correctAnswerLabel :: "jstring option"
  oq_explanation :: jstring

definition officialQuestion ::
  "section_def \<Rightarrow> nat \<Rightarrow> nat option \<Rightarrow> jstring option \<Rightarrow> official_question" where
  "officialQuestion def qNum correct found =
     (let explanation0 = (case found of None \<Rightarrow> [] | Some e \<Rightarrow> e);
          label = (case correct of
                     None \<Rightarrow> None
                   | Some c \<Rightarrow> if 1 \<le> c then labelAt hebrewLabels (c - 1) else None)
      in \<lparr>oq_questionNumber = qNum,
          oq_sectionType = def_type def,
          oq_sectionNumber = def_section def,
          oq_text = questionWord @ ascii '' '' @ String qNum,
          oq_options = map (placeholderOption hebrewLabels) [1, 2, 3, 4],
          oq_correctAnswer = map_option (\<lambda>c. int c - 1) correct,
          oq_correctAnswerLabel = label,
          oq_explanation = (if explanation0 \<noteq> [] then explanation0 else correctIs @ shown label)\<rparr>)"

type_synonym explanation_blocks = "section_def \<Rightarrow> (nat \<rightharpoonup> jstring)"

definition officialSectionQuestions ::
  "answer_key \<Rightarrow> explanation_blocks \<Rightarrow> section_def \<Rightarrow> official_question list" where
  "officialSectionQuestions decoded explanations def =
     (let sectionAnswers = (case map_of decoded (def_key def) of None \<Rightarrow> [] | Some m \<Rightarrow> m);
          questionNums = sort (map fst sectionAnswers)
      in map (\<lambda>qNum. officialQuestion def qNum (map_of sectionAnswers qNum)
                        (explanations def qNum))
           questionNums)"

definition officialParseExam :: "jstring \<Rightarrow> explanation_blocks \<Rightarrow> error + official_question list" where
  "officialParseExam examText explanations =
     (case parseAnswerKey examText of
        Inl e \<Rightarrow> Inl e
      | Inr decoded \<Rightarrow>
          Inr (concat (map (officialSectionQuestions decoded explanations) sectionDefs)))"

definition sectionIdOf :: "question \<Rightarrow> section_key option" where
  \<comment> \<open>the key of the section that carries the type and the number of a question\<close>
  "sectionIdOf q =
     map_option def_key
       (find (\<lambda>d. def_type d = sectionType q \<and> def_section d = sectionNumber q) sectionDefs)"

text \<open>
  The spec's words: the count obtained by grouping questions by the pair of section type
  and section number.
\<close>

definition groupCount :: "question list \<Rightarrow> section_type \<Rightarrow> nat \<Rightarrow> nat" where
  "groupCount qs t n = length (filter (\<lambda>q. sectionType q = t \<and> sectionNumber q = n) qs)"


text \<open>For the proofs: the answers of a section in a decoded key, none without the section.\<close>

definition sectionAnswersOf :: "answer_key \<Rightarrow> section_def \<Rightarrow> (nat \<times> nat) list" where
  "sectionAnswersOf ak d = (case map_of ak (def_key d) of None \<Rightarrow> [] | Some m \<Rightarrow> m)"

section \<open>Properties of the answer-key decoder\<close>

text \<open>
  What every write of \<open>saveAnswers\<close> keeps: one entry per question number, answers
  between 1 and 4 under question numbers that are at least 1; and the state of the line loop: the current section has
  its object in the key, the decoded question numbers are at least 1.
\<close>

definition goodKey :: "answer_key \<Rightarrow> bool" where
  "goodKey ak \<longleftrightarrow>
     (\<forall>sec m. map_of ak sec = Some m \<longrightarrow>
        distinct (map fst m)
        \<and> (\<forall>q a. map_of m q = Some a \<longrightarrow> 1 \<le> a \<and> a \<le> 4 \<and> 1 \<le> q))"

definition stateInv :: "key_state \<Rightarrow> bool" where
  "stateInv st \<longleftrightarrow>
     goodKey (answerKey st)
     \<and> (\<forall>sec. currentSection st = Some sec \<longrightarrow> map_of (answerKey st) sec \<noteq> None)
     \<and> (\<forall>qs. questionNumbers st = Some qs \<longrightarrow> (\<forall>q\<in>set qs. 1 \<le> q))"




lemma sentinelLoop_ge: "q \<in> set (sentinelLoop rest num) \<Longrightarrow> num \<le> q"
proof (induction rest num rule: sentinelLoop.induct)
  case (1 rest num)
  show ?case
  proof (cases "rest \<noteq> [] \<and> startsWith rest (String num)")
    case True
    with "1.prems" have "q = num \<or> q \<in> set (sentinelLoop (drop (length (String num)) rest) (num + 1))"
      by (subst (asm) sentinelLoop.simps) auto
    with "1.IH" True show ?thesis by auto
  next
    case False
    with "1.prems" show ?thesis by (subst (asm) sentinelLoop.simps) auto
  qed
qed

lemma goodKey_update:
  assumes "goodKey ak" "map_of ak sec = Some m" "1 \<le> a" "a \<le> 4" "1 \<le> q"
  shows "goodKey (AList.update sec (AList.update q a m) ak)"
  using assms unfolding goodKey_def
  by (auto simp: update_conv' distinct_update split: if_splits)

lemma saveLoop_inv:
  assumes "goodKey ak" "map_of ak sec \<noteq> None" "\<forall>q\<in>set qs. 1 \<le> q"
  shows "\<exists>ak'. saveLoop ak sec qs cs = Inr ak' \<and> goodKey ak'
            \<and> (\<forall>s. map_of ak' s \<noteq> None \<longleftrightarrow> map_of ak s \<noteq> None)"
  using assms
proof (induction ak sec qs cs rule: saveLoop.induct)
  case (1 ak sec q qs c cs)
  from "1.prems" obtain m where m: "map_of ak sec = Some m" by auto
  show ?case
  proof (cases "parseInt1 c")
    case None
    with 1 show ?thesis by simp
  next
    case (Some answer)
    show ?thesis
    proof (cases "1 \<le> answer \<and> answer \<le> 4")
      case True
      let ?ak = "AList.update sec (AList.update q answer m) ak"
      have g: "goodKey ?ak" using goodKey_update[OF "1.prems"(1) m] True "1.prems"(3) by simp
      have d: "map_of ?ak sec \<noteq> None" by (simp add: update_conv')
      from "1.IH"(2)[OF Some True m g d] "1.prems"(3)
      obtain ak' where "saveLoop ?ak sec qs cs = Inr ak'" "goodKey ak'"
        "\<forall>s. map_of ak' s \<noteq> None \<longleftrightarrow> map_of ?ak s \<noteq> None" by auto
      then show ?thesis using Some True m by (auto simp: update_conv')
    next
      case False
      have "\<exists>ak'. saveLoop ak sec qs cs = Inr ak' \<and> goodKey ak'
            \<and> (\<forall>s. map_of ak' s \<noteq> None \<longleftrightarrow> map_of ak s \<noteq> None)"
        using "1.IH"(3)[OF Some False "1.prems"(1,2)] "1.prems"(3) by simp
      with Some False show ?thesis by auto
    qed
  qed
qed (auto)

lemma saveAnswers_inv:
  assumes "stateInv st"
  shows "\<exists>ak'. saveAnswers st = Inr ak' \<and> goodKey ak'
            \<and> (\<forall>s. map_of ak' s \<noteq> None \<longleftrightarrow> map_of (answerKey st) s \<noteq> None)"
proof (cases "currentSection st")
  case None
  with assms show ?thesis by (simp add: saveAnswers_def stateInv_def)
next
  case (Some sec)
  show ?thesis
  proof (cases "questionNumbers st")
    case None
    with Some assms show ?thesis by (simp add: saveAnswers_def stateInv_def)
  next
    case (Some qs)
    with \<open>currentSection st = Some sec\<close> assms
    show ?thesis
      using saveLoop_inv[of "answerKey st" sec qs "collectedAnswers st"]
      by (auto simp: saveAnswers_def stateInv_def)
  qed
qed

lemma headerStep_inv:
  assumes "stateInv st"
  shows "\<exists>st'. headerStep st line = Inr st' \<and> stateInv st'"
proof (cases "matchSection line")
  case None
  with assms show ?thesis by (simp add: headerStep_def)
next
  case (Some sec)
  from saveAnswers_inv[OF assms] obtain ak' where
    ak': "saveAnswers st = Inr ak'" "goodKey ak'" by blast
  have "goodKey (AList.update (snd sec) [] ak')"
    using ak'(2) unfolding goodKey_def by (auto simp: update_conv' split: if_splits)
  with Some ak' show ?thesis
    by (simp add: headerStep_def stateInv_def update_conv')
qed

lemma collect_inv:
  assumes "stateInv st" "questionNumbers st = Some qs"
  shows "\<exists>st'. collect st line qs = Inr st' \<and> stateInv st'"
proof -
  let ?st1 = "st\<lparr>collectedAnswers := collectedAnswers st @ line\<rparr>"
  have inv1: "stateInv ?st1" using assms by (simp add: stateInv_def)
  from saveAnswers_inv[OF inv1] obtain ak' where
    ak': "saveAnswers ?st1 = Inr ak'" "goodKey ak'"
      "\<forall>s. map_of ak' s \<noteq> None \<longleftrightarrow> map_of (answerKey st) s \<noteq> None" by auto
  show ?thesis
  proof (cases "length (collectedAnswers ?st1) \<ge> length qs")
    case True
    then have "collect st line qs = Inr (?st1\<lparr>answerKey := ak', questionNumbers := None, collectedAnswers := []\<rparr>)"
      using ak'(1) by (simp add: collect_def Let_def)
    moreover have "stateInv (?st1\<lparr>answerKey := ak', questionNumbers := None, collectedAnswers := []\<rparr>)"
      using ak' assms(1) by (simp add: stateInv_def)
    ultimately show ?thesis by blast
  next
    case False
    then have "collect st line qs = Inr ?st1" by (simp add: collect_def Let_def)
    with inv1 show ?thesis by blast
  qed
qed

lemma digitStep_inv:
  assumes "stateInv st"
  shows "\<exists>st'. digitStep st line = Inr st' \<and> stateInv st'"
proof -
  have sent: "stateInv (st\<lparr>questionNumbers := Some (sentinelLoop line 1), collectedAnswers := []\<rparr>)"
    using assms sentinelLoop_ge[of _ line 1] by (auto simp: stateInv_def)
  show ?thesis
  proof (cases "questionNumbers st")
    case None
    with assms sent show ?thesis by (auto simp: digitStep_def)
  next
    case (Some qs)
    from collect_inv[OF assms Some, of line] obtain st' where
      "collect st line qs = Inr st'" "stateInv st'" by blast
    with Some assms sent show ?thesis by (auto simp: digitStep_def)
  qed
qed

lemma scanLines_inv:
  assumes "stateInv st"
  shows "\<exists>st'. scanLines st ls = Inr st' \<and> stateInv st'"
  using assms
proof (induction ls arbitrary: st)
  case Nil
  then show ?case by simp
next
  case (Cons l ls)
  from headerStep_inv[OF Cons.prems, of "trim l"] obtain st1 where
    st1: "headerStep st (trim l) = Inr st1" "stateInv st1" by blast
  from digitStep_inv[OF st1(2), of "trim l"] obtain st2 where
    st2: "digitStep st1 (trim l) = Inr st2" "stateInv st2" by blast
  show ?case
  proof (cases "includesStr (trim l) scoringMarker")
    case True
    from saveAnswers_inv[OF st2(2)] obtain ak' where
      ak': "saveAnswers st2 = Inr ak'" "goodKey ak'"
        "\<forall>s. map_of ak' s \<noteq> None \<longleftrightarrow> map_of (answerKey st2) s \<noteq> None" by auto
    have "stateInv (st2\<lparr>answerKey := ak'\<rparr>)" using st2(2) ak' by (simp add: stateInv_def)
    with True st1 st2 ak' show ?thesis by (simp add: Let_def)
  next
    case False
    with Cons.IH[OF st2(2)] st1 st2 show ?thesis by (simp add: Let_def)
  qed
qed

lemma stateInv_initial: "stateInv initialState"
  by (simp add: stateInv_def initialState_def goodKey_def)


lemma parseAnswerKey_good: "\<exists>ak. parseAnswerKey examText = Inr ak \<and> goodKey ak"
proof (cases "indexOf examText answerKeyMarker 0")
  case None
  then show ?thesis by (simp add: parseAnswerKey_def goodKey_def)
next
  case (Some keyStart)
  from scanLines_inv[OF stateInv_initial, of "splitNL (drop keyStart examText)"]
  obtain st' where
    "scanLines initialState (splitNL (drop keyStart examText)) = Inr st'" "stateInv st'"
    by blast
  with Some show ?thesis by (simp add: parseAnswerKey_def stateInv_def)
qed
















text \<open>
  C10.  The decoder reads the exam text only from the first occurrence of the answer-key
  marker on: two texts that both contain the marker and are equal from its first
  occurrence on have the same decoded key.
\<close>

theorem parseAnswerKey_suffix:
  assumes "indexOf t1 answerKeyMarker 0 = Some k1"
    and "indexOf t2 answerKeyMarker 0 = Some k2"
    and "drop k1 t1 = drop k2 t2"
  shows "parseAnswerKey t1 = parseAnswerKey t2"
  using assms by (simp add: parseAnswerKey_def)

theorem parseAnswerKey_suffix_witness:
  "indexOf (ascii ''abc'' @ answerKeyMarker @ [10] @ markerEnglish2 @ [10] @
            ascii ''12345678910'' @ [10] @ ascii ''4321432143'') answerKeyMarker 0 = Some 3
   \<and> indexOf (markerVerbal1 @ [10] @ ascii ''1234567891011'' @ [10] @ ascii ''22222222222''
            @ [10] @ answerKeyMarker @ [10] @ markerEnglish2 @ [10] @
            ascii ''12345678910'' @ [10] @ ascii ''4321432143'') answerKeyMarker 0 = Some 52
   \<and> parseAnswerKey (ascii ''abc'' @ answerKeyMarker @ [10] @ markerEnglish2 @ [10] @
            ascii ''12345678910'' @ [10] @ ascii ''4321432143'')
     = parseAnswerKey (markerVerbal1 @ [10] @ ascii ''1234567891011'' @ [10] @
            ascii ''22222222222'' @ [10] @ answerKeyMarker @ [10] @ markerEnglish2 @ [10] @
            ascii ''12345678910'' @ [10] @ ascii ''4321432143'')"
proof -
  let ?block = "answerKeyMarker @ [10] @ markerEnglish2 @ [10] @
            ascii ''12345678910'' @ [10] @ ascii ''4321432143''"
  let ?t1 = "ascii ''abc'' @ ?block"
  let ?t2 = "markerVerbal1 @ [10] @ ascii ''1234567891011'' @ [10] @ ascii ''22222222222''
            @ [10] @ ?block"
  have i1: "indexOf ?t1 answerKeyMarker 0 = Some 3" by code_simp
  have i2: "indexOf ?t2 answerKeyMarker 0 = Some 52" by code_simp
  have d: "drop 3 ?t1 = drop 52 ?t2" by code_simp
  from parseAnswerKey_suffix[OF i1 i2 d] i1 i2 show ?thesis by simp
qed

lemma firstIndex_notin: "p \<notin> set s \<Longrightarrow> firstIndex (p # ps) s = None"
  by (induction s) auto

lemma startsWith_set: "startsWith s p \<Longrightarrow> set p \<subseteq> set s"
  by (induction s p rule: startsWith.induct) auto

lemma answerDigits_trim: "answerDigits l \<Longrightarrow> trim l = l"
proof -
  assume a: "answerDigits l"
  then have ns: "\<forall>c\<in>set l. \<not> isSpace c" by (auto simp: answerDigits_def isSpace_def)
  from a obtain c cs where l: "l = c # cs" by (cases l) (auto simp: answerDigits_def)
  with ns have 1: "dropWhile isSpace l = l" by simp
  from a have "rev l \<noteq> []" by (auto simp: answerDigits_def)
  then obtain d ds where r: "rev l = d # ds" by (cases "rev l") auto
  then have "d \<in> set l" by (metis list.set_intros(1) set_rev)
  with ns r have 2: "dropWhile isSpace (rev l) = rev l" by simp
  show ?thesis by (simp add: trim_def 1 2)
qed

lemma answerDigits_matchSection: "answerDigits l \<Longrightarrow> matchSection l = None"
proof -
  assume a: "answerDigits l"
  then have "1495 \<notin> set l" "1488 \<notin> set l" by (auto simp: answerDigits_def)
  then show ?thesis
    by (simp add: matchSection_def sections_def includesStr_def markerVerbal1_def
        markerVerbal2_def markerQuantitative1_def markerQuantitative2_def markerEnglish1_def
        markerEnglish2_def firstIndex_notin)
qed

lemma answerDigits_scoring: "answerDigits l \<Longrightarrow> \<not> includesStr l scoringMarker"
proof -
  assume a: "answerDigits l"
  then have "1495 \<notin> set l" by (auto simp: answerDigits_def)
  then show ?thesis by (simp add: includesStr_def scoringMarker_def firstIndex_notin)
qed

lemma answerDigits_allDigits: "answerDigits l \<Longrightarrow> allDigits l"
  by (auto simp: answerDigits_def allDigits_def isDigit_def list_all_iff)

lemma answerDigits_not_sentinel: "answerDigits l \<Longrightarrow> \<not> startsWith l (ascii ''123456789'')"
proof
  assume a: "answerDigits l" and s: "startsWith l (ascii ''123456789'')"
  from startsWith_set[OF s] have "53 \<in> set l" by (auto simp: ascii_def)
  with a show False by (auto simp: answerDigits_def)
qed

lemma digitStep_answer:
  assumes "answerDigits l" "currentSection st = Some sec" "questionNumbers st = Some qs"
  shows "digitStep st l = collect st l qs"
  using assms answerDigits_allDigits[OF assms(1)] answerDigits_not_sentinel[OF assms(1)]
  by (simp add: digitStep_def)

lemma scanLines_answer:
  assumes "answerDigits l" "currentSection st = Some sec" "questionNumbers st = Some qs"
  shows "scanLines st (l # rest) =
     (case collect st l qs of Inl e \<Rightarrow> Inl e | Inr st2 \<Rightarrow> scanLines st2 rest)"
  using assms answerDigits_scoring[OF assms(1)]
  by (simp add: answerDigits_trim answerDigits_matchSection headerStep_def
      digitStep_answer[OF assms] split: sum.splits)

lemma scanLines_accumulate:
  assumes "\<forall>l\<in>set ls. answerDigits l" "currentSection st = Some sec"
    "questionNumbers st = Some qs"
    "length (collectedAnswers st) + length (concat ls) < length qs"
  shows "scanLines st (ls @ rest) =
         scanLines (st\<lparr>collectedAnswers := collectedAnswers st @ concat ls\<rparr>) rest"
  using assms
proof (induction ls arbitrary: st)
  case Nil
  then show ?case by simp
next
  case (Cons l ls)
  let ?st1 = "st\<lparr>collectedAnswers := collectedAnswers st @ l\<rparr>"
  have c: "collect st l qs = Inr ?st1" using Cons.prems(4) by (simp add: collect_def Let_def)
  have "scanLines st ((l # ls) @ rest) = scanLines ?st1 (ls @ rest)"
    using scanLines_answer[of l st sec qs "ls @ rest"] Cons.prems c by simp
  also have "\<dots> = scanLines (?st1\<lparr>collectedAnswers := collectedAnswers ?st1 @ concat ls\<rparr>) rest"
    using Cons.prems by (intro Cons.IH) auto
  finally show ?case by simp
qed

lemma saveLoop_valid:
  assumes "map_of ak sec = Some m" "\<forall>c\<in>set cs. 49 \<le> c \<and> c \<le> 52" "length qs = length cs"
  shows "saveLoop ak sec qs cs =
         Inr (AList.update sec (AList.updates qs (map (\<lambda>c. c - 48) cs) m) ak)"
  using assms
proof (induction qs cs arbitrary: ak m rule: list_induct2')
  case 1
  then show ?case by (simp add: update_triv)
next
  case (4 q qs c cs)
  have p: "parseInt1 c = Some (c - 48)" "1 \<le> c - 48" "c - 48 \<le> 4"
    using "4.prems"(2) by (auto simp: parseInt1_def isDigit_def)
  let ?ak = "AList.update sec (AList.update q (c - 48) m) ak"
  have "saveLoop ?ak sec qs cs =
        Inr (AList.update sec (AList.updates qs (map (\<lambda>c. c - 48) cs) (AList.update q (c - 48) m)) ?ak)"
    using "4.prems" by (intro "4.IH") (auto simp: update_conv')
  with p "4.prems"(1) show ?case by simp
qed auto

lemma sentinelRow_facts:
  "trim sentinelRow = sentinelRow" "matchSection sentinelRow = None" "allDigits sentinelRow"
  "length sentinelRow = 37" "startsWith sentinelRow (ascii ''123456789'')"
  "\<not> includesStr sentinelRow scoringMarker"
  "sentinelLoop sentinelRow 1 = [1, 2, 3, 4, 5, 6, 7, 8, 9, 10, 11, 12, 13, 14, 15, 16, 17, 18, 19, 20, 21, 22, 23]"
  by code_simp+


lemma scanLines_sentinel:
  assumes "currentSection st = Some sec"
  shows "scanLines st (sentinelRow # rest) =
         scanLines (st\<lparr>questionNumbers := Some [1..<24], collectedAnswers := []\<rparr>) rest"
proof -
  have u: "[1::nat, 2, 3, 4, 5, 6, 7, 8, 9, 10, 11, 12, 13, 14, 15, 16, 17, 18, 19, 20, 21, 22, 23] = [1..<24]"
    by code_simp
  have "digitStep st sentinelRow = Inr (st\<lparr>questionNumbers := Some [1..<24], collectedAnswers := []\<rparr>)"
    using assms sentinelRow_facts(3,5) unfolding digitStep_def sentinelRow_facts(4,7) u by simp
  then show ?thesis
    using sentinelRow_facts(6) by (simp add: sentinelRow_facts(1,2) headerStep_def)
qed

lemma updates_nth:
  assumes "length ks = length vs" "distinct ks" "j < length ks"
  shows "map_of (AList.updates ks vs al) (ks ! j) = Some (vs ! j)"
  using assms
proof (induction ks vs arbitrary: al j rule: list_induct2)
  case Nil
  then show ?case by simp
next
  case (Cons k ks v vs)
  show ?case
  proof (cases j)
    case 0
    with Cons.prems show ?thesis by (simp add: update_conv')
  next
    case (Suc j')
    with Cons.prems Cons.IH[of j' "AList.update k v al"] show ?thesis by simp
  qed
qed

lemma updates_run:
  assumes "length vs = 23" "distinct (map fst m0)" "fst ` set m0 \<subseteq> {1..23}"
  shows "distinct (map fst (AList.updates [1..<24] vs m0))"
    and "fst ` set (AList.updates [1..<24] vs m0) = {1..23}"
    and "length (AList.updates [1..<24] vs m0) = 23"
    and "\<forall>j<23. map_of (AList.updates [1..<24] vs m0) (Suc j) = Some (vs ! j)"
proof -
  let ?m = "AList.updates [1..<24] vs m0"
  show d: "distinct (map fst ?m)" using assms(2) by (rule distinct_updates)
  have "dom (map_of ?m) = set (take (length vs) [1..<24]) \<union> dom (map_of m0)"
    by (simp add: updates_conv')
  then have "fst ` set ?m = {1..<24} \<union> fst ` set m0"
    using assms(1) by (simp add: dom_map_of_conv_image_fst)
  with assms(3) show k: "fst ` set ?m = {1..23}" by auto
  have "length ?m = card (set (map fst ?m))" using d by (metis distinct_card length_map)
  with k show "length ?m = 23" by simp
  show "\<forall>j<23. map_of ?m (Suc j) = Some (vs ! j)"
  proof (intro allI impI)
    fix j :: nat assume j: "j < 23"
    have "map_of ?m ([1..<24] ! j) = Some (vs ! j)"
      using assms(1) j by (intro updates_nth) auto
    moreover have "[1..<24] ! j = Suc j" using j by simp
    ultimately show "map_of ?m (Suc j) = Some (vs ! j)" by simp
  qed
qed
lemma scanLines_sentinel_block:
  assumes sec: "currentSection st = Some sec"
    and m0: "map_of (answerKey st) sec = Some m0"
    and ls: "\<forall>l\<in>set ls. answerDigits l"
    and len: "length (concat ls) = 23"
  shows "scanLines st (sentinelRow # ls @ rest) =
         scanLines (st\<lparr>answerKey := AList.update sec
                          (AList.updates [1..<24] (map (\<lambda>c. c - 48) (concat ls)) m0) (answerKey st),
                        questionNumbers := None, collectedAnswers := []\<rparr>) rest"
proof -
  from len have "ls \<noteq> []" by auto
  then obtain ls' l where split: "ls = ls' @ [l]" by (metis rev_exhaust)
  with ls have l: "answerDigits l" and ls': "\<forall>l\<in>set ls'. answerDigits l" by auto
  from l have "l \<noteq> []" by (simp add: answerDigits_def)
  with len split have short: "length (concat ls') < 23" by (cases l) auto
  let ?st0 = "st\<lparr>questionNumbers := Some [1..<24], collectedAnswers := []\<rparr>"
  let ?st1 = "?st0\<lparr>collectedAnswers := collectedAnswers ?st0 @ concat ls'\<rparr>"
  let ?st2 = "?st1\<lparr>collectedAnswers := collectedAnswers ?st1 @ l\<rparr>"
  have valid: "\<forall>c\<in>set (concat ls). 49 \<le> c \<and> c \<le> 52"
    using ls by (auto simp: answerDigits_def)
  have save: "saveAnswers ?st2 =
     Inr (AList.update sec (AList.updates [1..<24] (map (\<lambda>c. c - 48) (concat ls)) m0) (answerKey st))"
    using saveLoop_valid[OF m0 valid, of "[1..<24]"] len sec split
    by (simp add: saveAnswers_def)
  have "scanLines st (sentinelRow # ls @ rest) = scanLines ?st0 (ls' @ l # rest)"
    using scanLines_sentinel[OF sec] split by simp
  also have "\<dots> = scanLines ?st1 (l # rest)"
    using ls' sec short by (intro scanLines_accumulate[where sec = sec and qs = "[1..<24]"]) auto
  also have "\<dots> = (case collect ?st1 l [1..<24] of Inl e \<Rightarrow> Inl e | Inr st2 \<Rightarrow> scanLines st2 rest)"
    using sec by (intro scanLines_answer[OF l, where sec = sec]) auto
  also have "collect ?st1 l [1..<24] =
       Inr (?st2\<lparr>answerKey := AList.update sec
                          (AList.updates [1..<24] (map (\<lambda>c. c - 48) (concat ls)) m0) (answerKey st),
                 questionNumbers := None, collectedAnswers := []\<rparr>)"
    using save len split by (simp add: collect_def Let_def)
  finally show ?thesis by simp
qed



text \<open>
  C3, as amended.  Inside a section whose object holds no question number above 23, the
  sentinel row of the numbers 1 to 23 followed by lines of answer digits, each digit
  between 1 and 4, 23 digits in all, leaves the section with exactly 23 entries, numbered
  1 to 23, the \<open>j\<close>-th digit under question \<open>j\<close>; the scan goes on with the lines
  that follow.
\<close>

theorem sentinel_row_23:
  assumes "currentSection st = Some sec"
    and "map_of (answerKey st) sec = Some m0"
    and "distinct (map fst m0)" and "fst ` set m0 \<subseteq> {1..23}"
    and "\<forall>l\<in>set ls. answerDigits l"
    and "length (concat ls) = 23"
    and "m' = AList.updates [1..<24] (map (\<lambda>c. c - 48) (concat ls)) m0"
  shows "scanLines st (sentinelRow # ls @ rest) =
           scanLines (st\<lparr>answerKey := AList.update sec m' (answerKey st),
                        questionNumbers := None, collectedAnswers := []\<rparr>) rest
         \<and> length m' = 23 \<and> distinct (map fst m') \<and> fst ` set m' = {1..23}
         \<and> (\<forall>j<23. map_of m' (Suc j) = Some (concat ls ! j - 48))"
proof -
  let ?vs = "map (\<lambda>c. c - 48) (concat ls)"
  have lv: "length ?vs = 23" using assms(6) by simp
  have "\<forall>j<23. map_of m' (Suc j) = Some (?vs ! j)"
    unfolding assms(7) by (rule updates_run(4)[OF lv assms(3,4)])
  then have "\<forall>j<23. map_of m' (Suc j) = Some (concat ls ! j - 48)"
    using assms(6) by simp
  then show ?thesis
    using scanLines_sentinel_block[OF assms(1,2,5,6), of rest]
      updates_run(1,2,3)[OF lv assms(3,4)] assms(7) by simp
qed

theorem sentinel_row_23_witness:
  "scanLines \<lparr>answerKey = [(Verbal1, [])], currentSection = Some Verbal1,
              questionNumbers = None, collectedAnswers = []\<rparr>
     [sentinelRow, ascii ''12341234123'', ascii ''412341234123'']
   = Inr \<lparr>answerKey =
            [(Verbal1,
              [(1, 1), (2, 2), (3, 3), (4, 4), (5, 1), (6, 2), (7, 3), (8, 4), (9, 1),
               (10, 2), (11, 3), (12, 4), (13, 1), (14, 2), (15, 3), (16, 4), (17, 1),
               (18, 2), (19, 3), (20, 4), (21, 1), (22, 2), (23, 3)])],
          currentSection = Some Verbal1, questionNumbers = None, collectedAnswers = []\<rparr>"
proof -
  let ?st = "\<lparr>answerKey = [(Verbal1, [])], currentSection = Some Verbal1,
              questionNumbers = None, collectedAnswers = []\<rparr>"
  let ?ls = "[ascii ''12341234123'', ascii ''412341234123'']"
  let ?m = "AList.updates [1..<24] (map (\<lambda>c. c - 48) (concat ?ls)) []"
  have h1: "currentSection ?st = Some Verbal1" by simp
  have h2: "map_of (answerKey ?st) Verbal1 = Some []" by simp
  have h3: "distinct (map fst ([] :: (nat \<times> nat) list))" by simp
  have h4: "fst ` set ([] :: (nat \<times> nat) list) \<subseteq> {1..23}" by simp
  have h5: "\<forall>l\<in>set ?ls. answerDigits l" by code_simp
  have h6: "length (concat ?ls) = 23" by code_simp
  have m: "?m = [(1, 1), (2, 2), (3, 3), (4, 4), (5, 1), (6, 2), (7, 3), (8, 4), (9, 1),
               (10, 2), (11, 3), (12, 4), (13, 1), (14, 2), (15, 3), (16, 4), (17, 1),
               (18, 2), (19, 3), (20, 4), (21, 1), (22, 2), (23, 3)]" by code_simp
  from sentinel_row_23[OF h1 h2 h3 h4 h5 h6 refl, of "[]"]
  have "scanLines ?st (sentinelRow # ?ls @ []) =
          scanLines (?st\<lparr>answerKey := AList.update Verbal1 ?m (answerKey ?st),
                        questionNumbers := None, collectedAnswers := []\<rparr>) []"
    by blast
  then show ?thesis unfolding m by simp
qed

text \<open>
  C3 as stated fails: with the answer row 12341234123451234123412, 23 digits of which the
  thirteenth is 5, the decoder yields 22 entries and no entry for question 13.
\<close>

theorem sentinel_row_23_counterexample:
  "parseAnswerKey
     (answerKeyMarker @ [10] @ markerVerbal1 @ [10] @ sentinelRow @ [10] @
      ascii ''12341234123451234123412'')
   = Inr [(Verbal1,
           [(1, 1), (2, 2), (3, 3), (4, 4), (5, 1), (6, 2), (7, 3), (8, 4), (9, 1),
            (10, 2), (11, 3), (12, 4), (14, 1), (15, 2), (16, 3), (17, 4), (18, 1),
            (19, 2), (20, 3), (21, 4), (22, 1), (23, 2)])]
   \<and> allDigits (ascii ''12341234123451234123412'')
   \<and> length (ascii ''12341234123451234123412'') = 23"
  by code_simp

section \<open>Properties of the section segmenter\<close>

lemma startsWith_take: "startsWith s p \<longleftrightarrow> length p \<le> length s \<and> take (length p) s = p"
  by (induction s p rule: startsWith.induct) auto

lemma firstIndex_le: "firstIndex needle s = Some i \<Longrightarrow> i \<le> length s"
  by (induction s arbitrary: i) (auto split: if_splits)

lemma firstIndex_startsWith: "firstIndex needle s = Some i \<Longrightarrow> startsWith (drop i s) needle"
  by (induction s arbitrary: i) (auto split: if_splits)

lemma firstIndex_first:
  "firstIndex needle s = Some i \<Longrightarrow> j < i \<Longrightarrow> \<not> startsWith (drop j s) needle"
proof (induction s arbitrary: i j)
  case Nil
  then show ?case by (auto split: if_splits)
next
  case (Cons c cs)
  from Cons.prems obtain i' where i': "i = Suc i'" "firstIndex needle cs = Some i'"
    "\<not> startsWith (c # cs) needle"
    by (auto split: if_splits)
  show ?case
  proof (cases j)
    case 0
    with i'(3) show ?thesis by simp
  next
    case (Suc j')
    with Cons.prems(2) i'(1) have "j' < i'" by simp
    from Cons.IH[OF i'(2) this] Suc show ?thesis by simp
  qed
qed

lemma firstIndex_drop_Some:
  "firstIndex needle s = Some i \<Longrightarrow> k \<le> i \<Longrightarrow> firstIndex needle (drop k s) = Some (i - k)"
proof (induction s arbitrary: i k)
  case Nil
  then show ?case by (auto split: if_splits)
next
  case (Cons c cs)
  show ?case
  proof (cases k)
    case 0
    with Cons.prems show ?thesis by simp
  next
    case (Suc k')
    with Cons.prems obtain i' where i': "i = Suc i'" "firstIndex needle cs = Some i'" "k' \<le> i'"
      by (auto split: if_splits)
    from Cons.IH[OF i'(2,3)] Suc i'(1) show ?thesis by simp
  qed
qed

lemma firstIndex_drop_None:
  "firstIndex needle s = None \<Longrightarrow> firstIndex needle (drop k s) = None"
proof (induction s arbitrary: k)
  case Nil
  then show ?case by simp
next
  case (Cons c cs)
  then show ?case by (cases k) (auto split: if_splits)
qed

lemma indexOf_bounds:
  assumes "indexOf s needle a = Some i"
  shows "min a (length s) \<le> i" "i \<le> length s" "startsWith (drop i s) needle"
proof -
  from assms obtain i0 where i0: "firstIndex needle (drop a s) = Some i0" "i = min a (length s) + i0"
    by (auto simp: indexOf_def)
  show "min a (length s) \<le> i" using i0 by simp
  from firstIndex_le[OF i0(1)] i0(2) show le: "i \<le> length s" by auto
  have "drop i s = drop i0 (drop a s)"
  proof (cases "a \<le> length s")
    case True
    with i0(2) show ?thesis by (simp add: add.commute)
  next
    case False
    with firstIndex_le[OF i0(1)] i0(2) show ?thesis by simp
  qed
  with firstIndex_startsWith[OF i0(1)] show "startsWith (drop i s) needle" by simp
qed

lemma indexOf_later_Some:
  assumes "indexOf s needle a = Some i" "a \<le> b" "b \<le> i"
  shows "indexOf s needle b = Some i"
proof -
  from assms(1) obtain i0 where i0: "firstIndex needle (drop a s) = Some i0" "i = min a (length s) + i0"
    by (auto simp: indexOf_def)
  from indexOf_bounds(2)[OF assms(1)] assms(2,3) have bl: "b \<le> length s" "a \<le> length s" by auto
  with i0(2) assms(3) have "b - a \<le> i0" by auto
  from firstIndex_drop_Some[OF i0(1) this] have "firstIndex needle (drop b s) = Some (i0 - (b - a))"
    using assms(2) by simp
  with bl i0(2) assms(2,3) show ?thesis by (auto simp: indexOf_def)
qed

lemma indexOf_later_None:
  assumes "indexOf s needle a = None" "a \<le> b"
  shows "indexOf s needle b = None"
proof -
  from assms(1) have "firstIndex needle (drop a s) = None" by (simp add: indexOf_def)
  from firstIndex_drop_None[OF this, of "b - a"] assms(2) show ?thesis by (simp add: indexOf_def)
qed

text \<open>The loop of \<open>findSectionMarker\<close> over the variants that remain.\<close>

lemma fold_earlier_le:
  "fold (\<lambda>v m. earlier (indexOf t v a) m) vs (Some m0) = Some r \<Longrightarrow> r \<le> m0"
proof (induction vs arbitrary: m0)
  case Nil
  then show ?case by simp
next
  case (Cons v vs)
  show ?case
  proof (cases "indexOf t v a")
    case None
    with Cons.prems have "fold (\<lambda>v m. earlier (indexOf t v a) m) vs (Some m0) = Some r"
      by (simp add: earlier_def)
    then show ?thesis by (rule Cons.IH)
  next
    case (Some i)
    with Cons.prems
    have "fold (\<lambda>v m. earlier (indexOf t v a) m) vs (Some (if i < m0 then i else m0)) = Some r"
      by (simp add: earlier_def if_distrib)
    from Cons.IH[OF this] show ?thesis by (simp split: if_splits)
  qed
qed

lemma fold_earlier_None:
  "fold (\<lambda>v m. earlier (indexOf t v a) m) vs (Some m0) \<noteq> None"
  by (induction vs arbitrary: m0) (auto simp: earlier_def split: option.splits)

lemma fold_earlier_source:
  "fold (\<lambda>v m. earlier (indexOf t v a) m) vs m0 = Some r \<Longrightarrow>
     m0 = Some r \<or> (\<exists>v\<in>set vs. indexOf t v a = Some r)"
proof (induction vs arbitrary: m0)
  case Nil
  then show ?case by simp
next
  case (Cons v vs)
  from Cons.IH[of "earlier (indexOf t v a) m0"] Cons.prems
  have "earlier (indexOf t v a) m0 = Some r \<or> (\<exists>v\<in>set vs. indexOf t v a = Some r)" by simp
  then show ?case by (auto simp: earlier_def split: option.splits if_splits)
qed

lemma fold_earlier_later:
  assumes "fold (\<lambda>v m. earlier (indexOf t v a) m) vs m0 = Some r" "a \<le> b" "b \<le> r"
  shows "fold (\<lambda>v m. earlier (indexOf t v b) m) vs m0 = Some r"
  using assms
proof (induction vs arbitrary: m0)
  case Nil
  then show ?case by simp
next
  case (Cons v vs)
  have "earlier (indexOf t v b) m0 = earlier (indexOf t v a) m0"
  proof (cases "indexOf t v a")
    case None
    from indexOf_later_None[OF None Cons.prems(2)] None show ?thesis by simp
  next
    case (Some i)
    have "\<exists>m1. earlier (Some i) m0 = Some m1 \<and> m1 \<le> i"
      by (cases m0) (auto simp: earlier_def)
    with Some obtain m1 where m1: "earlier (indexOf t v a) m0 = Some m1" "m1 \<le> i"
      by auto
    with Cons.prems(1) have "r \<le> m1" using fold_earlier_le[of t a vs m1 r] by simp
    with m1(2) Cons.prems(3) have "b \<le> i" by simp
    from indexOf_later_Some[OF Some Cons.prems(2) this] Some show ?thesis by simp
  qed
  with Cons show ?case by simp
qed

lemma findSectionMarker_later:
  "findSectionMarker t m a = Some r \<Longrightarrow> a \<le> b \<Longrightarrow> b \<le> r \<Longrightarrow> findSectionMarker t m b = Some r"
  unfolding findSectionMarker_def by (rule fold_earlier_later)

lemma findSectionMarker_source:
  "findSectionMarker t m a = Some r \<Longrightarrow> \<exists>v\<in>set (variantsOf m). indexOf t v a = Some r"
  unfolding findSectionMarker_def using fold_earlier_source[of t a "variantsOf m" None r] by simp


lemma occurrences_overlap:
  assumes "startsWith (drop i t) p" "startsWith (drop (i + d) t) q" "d < length p"
  shows "overlapAt p q d"
proof -
  let ?n = "min (length p - d) (length q)"
  from assms(1) have p: "take (length p) (drop i t) = p" by (simp add: startsWith_take)
  from assms(2) have q: "take (length q) (drop (i + d) t) = q" by (simp add: startsWith_take)
  have "drop d p = drop d (take (length p) (drop i t))" using p by simp
  also have "\<dots> = take (length p - d) (drop (i + d) t)" by (simp add: drop_take add.commute)
  finally have "take ?n (drop d p) = take ?n (drop (i + d) t)" by (simp add: min.commute)
  moreover have "take ?n q = take ?n (drop (i + d) t)"
    by (subst q[symmetric]) (simp add: min.commute min.left_commute)
  ultimately show ?thesis by (simp add: overlapAt_def)
qed

lemma markers_disjoint:
  "\<forall>k\<in>set [0..<5]. \<forall>p\<in>set (variantsOf (SECTION_ORDER ! k)).
     \<forall>q\<in>set (variantsOf (SECTION_ORDER ! Suc k)).
       length p = length (SECTION_ORDER ! k) \<and> 0 < length p
       \<and> (\<forall>d\<in>set [0..<length p]. \<not> overlapAt p q d)"
  by code_simp

lemma markers_disjointD:
  assumes "k < 5" "p \<in> set (variantsOf (SECTION_ORDER ! k))"
    "q \<in> set (variantsOf (SECTION_ORDER ! Suc k))"
  shows "length p = length (SECTION_ORDER ! k)" "d < length p \<Longrightarrow> \<not> overlapAt p q d"
    "0 < length p"
proof -
  have k: "k \<in> set [0..<5]" using assms(1) by simp
  note * = bspec[OF bspec[OF bspec[OF markers_disjoint k] assms(2)] assms(3)]
  from * show "length p = length (SECTION_ORDER ! k)" by (rule conjunct1)
  from * show "0 < length p" by blast
  assume "d < length p"
  then have "d \<in> set [0..<length p]" by simp
  with * show "\<not> overlapAt p q d" by blast
qed

lemma arrayIndexOf_order:
  "\<forall>k\<in>set [0..<5]. arrayIndexOf SECTION_ORDER (SECTION_ORDER ! k) = Some k"
  by code_simp

lemma findSectionMarker_bounds:
  assumes "findSectionMarker t m a = Some r"
  shows "min a (length t) \<le> r" "r \<le> length t"
  using findSectionMarker_source[OF assms] indexOf_bounds(1,2) by blast+

lemma sectionEndFrom_ge:
  assumes "s \<le> length t"
  shows "s \<le> sectionEndFrom t m s"
proof -
  have a: "s \<le> i" if "indexOf t answerKeyMarker s = Some i" for i
    using indexOf_bounds(1)[OF that] assms by simp
  have n: "s \<le> i" if "findSectionMarker t m' (s + length m) = Some i" for i m'
    using findSectionMarker_bounds(1)[OF that] assms by simp
  show ?thesis
    unfolding sectionEndFrom_def Let_def using assms a n
    by (auto split: option.splits)
qed

lemma sectionEndFrom_next:
  assumes "k < 5" "findSectionMarker t (SECTION_ORDER ! Suc k) (s + length (SECTION_ORDER ! k)) = Some n"
  shows "sectionEndFrom t (SECTION_ORDER ! k) s \<le> n"
proof -
  have "k \<in> set [0..<5]" using assms(1) by simp
  with arrayIndexOf_order have "arrayIndexOf SECTION_ORDER (SECTION_ORDER ! k) = Some k"
    by (rule bspec)
  moreover have "length SECTION_ORDER = 7" by (simp add: SECTION_ORDER_def)
  ultimately show ?thesis
    unfolding sectionEndFrom_def Let_def using assms by (auto split: option.splits)
qed

text \<open>
  C5, as amended.  For two canonically adjacent sections that the segmenter both finds,
  the end boundary of the first is at most the start boundary of the second exactly when
  the first section's start is at most the second's: the header of the second section,
  searched from the end of the table of contents, must not come before the header of the
  first.
\<close>

theorem section_order:
  assumes "k < 5"
    and "sectionBoundary t (SECTION_ORDER ! k) = Some (sK, eK)"
    and "sectionBoundary t (SECTION_ORDER ! Suc k) = Some (sK1, eK1)"
  shows "eK \<le> sK1 \<longleftrightarrow> sK \<le> sK1"
proof -
  let ?a = "searchStart t"
  let ?m = "SECTION_ORDER ! k"
  from assms(2) have fK: "findSectionMarker t ?m ?a = Some sK"
    and eK: "eK = sectionEndFrom t ?m sK"
    by (auto simp: sectionBoundary_def split: option.splits)
  from assms(3) have fK1: "findSectionMarker t (SECTION_ORDER ! Suc k) ?a = Some sK1"
    by (auto simp: sectionBoundary_def split: option.splits)
  from findSectionMarker_source[OF fK] obtain p where
    p: "p \<in> set (variantsOf ?m)" "indexOf t p ?a = Some sK" by blast
  from findSectionMarker_source[OF fK1] obtain q where
    q: "q \<in> set (variantsOf (SECTION_ORDER ! Suc k))" "indexOf t q ?a = Some sK1" by blast
  note lp = markers_disjointD(1)[OF assms(1) p(1) q(1)]
  note no = markers_disjointD(2)[OF assms(1) p(1) q(1)]
  have sKle: "sK \<le> length t" by (rule findSectionMarker_bounds(2)[OF fK])
  show ?thesis
  proof
    assume "eK \<le> sK1"
    with sectionEndFrom_ge[OF sKle, of ?m] eK show "sK \<le> sK1" by simp
  next
    assume le: "sK \<le> sK1"
    have far: "sK + length ?m \<le> sK1"
    proof (rule ccontr)
      assume "\<not> sK + length ?m \<le> sK1"
      with le lp have d: "sK1 = sK + (sK1 - sK)" "sK1 - sK < length p" by simp_all
      have "startsWith (drop (sK + (sK1 - sK)) t) q"
        using indexOf_bounds(3)[OF q(2)] d(1) by simp
      from occurrences_overlap[OF indexOf_bounds(3)[OF p(2)] this d(2)]
      have "overlapAt p q (sK1 - sK)" .
      with no[OF d(2)] show False by simp
    qed
    have "min ?a (length t) \<le> sK" by (rule findSectionMarker_bounds(1)[OF fK])
    moreover have "sK1 \<le> length t" by (rule findSectionMarker_bounds(2)[OF fK1])
    moreover have "sK + length p \<le> length t"
      using indexOf_bounds(3)[OF p(2)] sKle by (auto simp: startsWith_take)
    moreover note markers_disjointD(3)[OF assms(1) p(1) q(1)]
    ultimately have "?a \<le> sK + length ?m" by linarith
    from findSectionMarker_later[OF fK1 this far]
    have "findSectionMarker t (SECTION_ORDER ! Suc k) (sK + length ?m) = Some sK1" .
    from sectionEndFrom_next[OF assms(1) this] eK show "eK \<le> sK1" by simp
  qed
qed


text \<open>A text behind a padding: every index found behind the padding is shifted by its length.\<close>

lemma indexOf_pad:
  assumes "length pad \<le> a"
  shows "indexOf (pad @ r) v a = map_option ((+) (length pad)) (indexOf r v (a - length pad))"
proof -
  have "min a (length pad + length r) = length pad + min (a - length pad) (length r)"
    using assms by simp
  then show ?thesis using assms by (simp add: indexOf_def option.map_comp comp_def add.assoc)
qed

lemma earlier_shift:
  "earlier (map_option ((+) n) x) (map_option ((+) n) y) = map_option ((+) (n::nat)) (earlier x y)"
  by (cases x; cases y) (auto simp: earlier_def)

lemma fold_earlier_shift:
  "fold (\<lambda>v m. earlier (map_option ((+) n) (f v)) m) vs (map_option ((+) n) m0)
   = map_option ((+) (n::nat)) (fold (\<lambda>v m. earlier (f v) m) vs m0)"
  by (induction vs arbitrary: m0) (simp_all add: earlier_shift)

lemma findSectionMarker_pad:
  assumes "length pad \<le> a"
  shows "findSectionMarker (pad @ r) m a
         = map_option ((+) (length pad)) (findSectionMarker r m (a - length pad))"
  using fold_earlier_shift[of "length pad" "\<lambda>v. indexOf r v (a - length pad)" "variantsOf m" None]
  by (simp add: findSectionMarker_def indexOf_pad[OF assms])

lemma sectionEndFrom_pad:
  assumes "length pad \<le> s"
  shows "sectionEndFrom (pad @ r) m s = length pad + sectionEndFrom r m (s - length pad)"
proof -
  have 1: "length pad \<le> s + length m" using assms by simp
  have 2: "s + length m - length pad = (s - length pad) + length m" using assms by simp
  show ?thesis
    unfolding sectionEndFrom_def Let_def
    by (simp add: indexOf_pad[OF assms] findSectionMarker_pad[OF 1] 2 split: option.splits)
qed

lemma sectionBoundary_pad:
  assumes "length pad = 1000" "indexOf r tocLandmark 0 = None"
  shows "sectionBoundary (pad @ r) m =
         (case findSectionMarker r m 0 of
            None \<Rightarrow> None
          | Some s \<Rightarrow> Some (1000 + s, 1000 + sectionEndFrom r m s))"
proof -
  have "indexOf (pad @ r) tocLandmark 1000 = None"
    using indexOf_pad[of pad 1000 r tocLandmark] assms by simp
  then have a: "searchStart (pad @ r) = 1000" by (simp add: searchStart_def)
  show ?thesis
    unfolding sectionBoundary_def a
    using findSectionMarker_pad[of pad 1000 r m] sectionEndFrom_pad[of pad _ r m] assms(1)
    by (simp split: option.splits)
qed

lemma headers_reversed:
  "indexOf (markerVerbal2 @ [10] @ markerVerbal1) tocLandmark 0 = None"
  "findSectionMarker (markerVerbal2 @ [10] @ markerVerbal1) markerVerbal1 0 = Some 24"
  "sectionEndFrom (markerVerbal2 @ [10] @ markerVerbal1) markerVerbal1 24 = 49"
  "findSectionMarker (markerVerbal2 @ [10] @ markerVerbal1) markerVerbal2 0 = Some 0"
  "sectionEndFrom (markerVerbal2 @ [10] @ markerVerbal1) markerVerbal2 0 = 49"
  by code_simp+

text \<open>
  C5 as stated fails on a document in which the header of the second verbal section comes
  before the header of the first (1000 blanks, the second header, a newline, the first
  header): the first verbal section runs from 1024 to the end of the text, 1049, and the
  second starts at 1000.
\<close>

theorem section_order_counterexample:
  "sectionBoundary (replicate 1000 32 @ markerVerbal2 @ [10] @ markerVerbal1) markerVerbal1
     = Some (1024, 1049)
   \<and> sectionBoundary (replicate 1000 32 @ markerVerbal2 @ [10] @ markerVerbal1) markerVerbal2
     = Some (1000, 1049)
   \<and> \<not> (1049::nat) \<le> 1000"
proof -
  have l: "length (replicate 1000 (32::nat)) = 1000" by simp
  show ?thesis
    by (simp only: sectionBoundary_pad[OF l headers_reversed(1)] headers_reversed option.case) simp
qed

lemma headers_in_order:
  "indexOf (markerVerbal1 @ [10] @ markerVerbal2) tocLandmark 0 = None"
  "findSectionMarker (markerVerbal1 @ [10] @ markerVerbal2) markerVerbal1 0 = Some 0"
  "sectionEndFrom (markerVerbal1 @ [10] @ markerVerbal2) markerVerbal1 0 = 26"
  "findSectionMarker (markerVerbal1 @ [10] @ markerVerbal2) markerVerbal2 0 = Some 26"
  "sectionEndFrom (markerVerbal1 @ [10] @ markerVerbal2) markerVerbal2 26 = 49"
  by code_simp+

theorem section_order_witness:
  "sectionBoundary (replicate 1000 32 @ markerVerbal1 @ [10] @ markerVerbal2) markerVerbal1
     = Some (1000, 1026)
   \<and> sectionBoundary (replicate 1000 32 @ markerVerbal1 @ [10] @ markerVerbal2) markerVerbal2
     = Some (1026, 1049)
   \<and> ((1026::nat) \<le> 1026 \<longleftrightarrow> (1000::nat) \<le> 1026)"
proof -
  let ?t = "replicate 1000 32 @ markerVerbal1 @ [10] @ markerVerbal2"
  have l: "length (replicate 1000 (32::nat)) = 1000" by simp
  have o: "SECTION_ORDER ! 0 = markerVerbal1" "SECTION_ORDER ! Suc 0 = markerVerbal2"
    by (simp_all add: SECTION_ORDER_def)
  have b1: "sectionBoundary ?t (SECTION_ORDER ! 0) = Some (1000, 1026)"
    by (simp only: o sectionBoundary_pad[OF l headers_in_order(1)] headers_in_order option.case) simp
  have b2: "sectionBoundary ?t (SECTION_ORDER ! Suc 0) = Some (1026, 1049)"
    by (simp only: o sectionBoundary_pad[OF l headers_in_order(1)] headers_in_order option.case) simp
  have k: "(0::nat) < 5" by simp
  from section_order[OF k b1 b2] b1 b2 show ?thesis unfolding o by simp
qed


section \<open>Properties of the text normalizer\<close>

lemma firstSome_total:
  assumes "\<forall>x. f x \<noteq> None"
  shows "firstSome f xs = (case xs of [] \<Rightarrow> None | x # _ \<Rightarrow> f x)"
proof (cases xs)
  case Nil
  then show ?thesis by simp
next
  case (Cons a list)
  from assms have "f a \<noteq> None" by (rule spec)
  then obtain y where "f a = Some y" by (cases "f a") auto
  with Cons show ?thesis by simp
qed

lemma greedy_from_one: "rev [1..<Suc n] = (case n of 0 \<Rightarrow> [] | Suc m \<Rightarrow> n # rev [1..<n])"
  by (cases n) auto

lemma matchItems_spaces:
  "matchItems [Rep isSpace 1 None True] prev s =
     (if takeWhile isSpace s = [] then None else Some [takeWhile isSpace s])"
proof (cases "takeWhile isSpace s = []")
  case True
  then show ?thesis by simp
next
  case False
  then obtain m where m: "length (takeWhile isSpace s) = Suc m"
    by (cases "length (takeWhile isSpace s)") auto
  have "take (Suc m) s = takeWhile isSpace s" using m by (metis takeWhile_eq_take)
  with False m show ?thesis by simp
qed

lemma matchAt_rxSpaces:
  "matchAt rxSpaces prev s =
     (if takeWhile isSpace s = [] then None else Some [takeWhile isSpace s])"
  unfolding matchAt_def rxSpaces_def firstSome.simps matchItems_spaces by simp

lemma replaceAll_rxSpaces: "replaceAll rxSpaces [32] prev s = collapse s"
proof (induction s arbitrary: prev rule: collapse.induct)
  case 1
  show ?case by (subst replaceAll.simps) (simp add: matchAt_rxSpaces)
next
  case (2 c cs)
  show ?case
  proof (cases "isSpace c")
    case True
    have "drop (Suc (length (takeWhile isSpace cs))) (c # cs) = dropWhile isSpace cs"
      by (simp add: dropWhile_eq_drop[symmetric])
    with True 2(1) show ?thesis
      by (subst replaceAll.simps) (simp add: matchAt_rxSpaces)
  next
    case False
    with 2(2) show ?thesis
      by (subst replaceAll.simps) (simp add: matchAt_rxSpaces)
  qed
qed


lemma firstSome_greedy_end:
  "firstSome (\<lambda>k. if drop k s = [] then Some (g k) else None) (rev [lo..<Suc n])
   = (if lo \<le> n \<and> length s \<le> n then Some (g n) else None)"
  if "n \<le> length s" for g :: "nat \<Rightarrow> 'a"
  using that
proof (induction n)
  case 0
  then show ?case by auto
next
  case (Suc n)
  then show ?case by (cases "lo \<le> Suc n") (auto simp: not_less_eq_eq)
qed

lemma matchItems_spaces_end:
  "matchItems [Rep isSpace 1 None True, End] prev s =
     (if s \<noteq> [] \<and> list_all isSpace s then Some [s, []] else None)"
proof -
  let ?run = "length (takeWhile isSpace s)"
  have le: "?run \<le> length s" by (rule length_takeWhile_le)
  have t: "take ?run s = takeWhile isSpace s" by (metis takeWhile_eq_take)
  have all: "list_all isSpace s \<longleftrightarrow> length s \<le> ?run"
  proof
    assume "list_all isSpace s"
    then have "\<forall>x\<in>set s. isSpace x" by (simp add: list_all_iff)
    then have "takeWhile isSpace s = s" by (rule takeWhile_eq_all_conv[THEN iffD2])
    then show "length s \<le> ?run" by (metis order_refl)
  next
    assume "length s \<le> ?run"
    then have "take ?run s = s" by (rule take_all)
    with t have "takeWhile isSpace s = s" by (rule subst)
    then have "\<forall>x\<in>set s. isSpace x" by (rule takeWhile_eq_all_conv[THEN iffD1])
    then show "list_all isSpace s" by (simp add: list_all_iff)
  qed
  have f: "(\<lambda>k. map_option ((#) (take k s))
                 (matchItems [End] (before prev (take k s)) (drop k s)))
           = (\<lambda>k. if drop k s = [] then Some [take k s, []] else None)"
    by (rule ext) simp
  have "matchItems [Rep isSpace 1 None True, End] prev s =
        firstSome (\<lambda>k. if drop k s = [] then Some [take k s, []] else None) (rev [1..<Suc ?run])"
    unfolding matchItems.simps(2)[of "Rep isSpace 1 None True"] item.case Let_def f by simp
  also have "\<dots> = (if 1 \<le> ?run \<and> length s \<le> ?run then Some [take ?run s, []] else None)"
    by (rule firstSome_greedy_end[OF le])
  finally have r: "matchItems [Rep isSpace 1 None True, End] prev s =
      (if 1 \<le> ?run \<and> length s \<le> ?run then Some [take ?run s, []] else None)" .
  show ?thesis
  proof (cases "s \<noteq> [] \<and> list_all isSpace s")
    case True
    with all have l: "length s \<le> ?run" by simp
    then have "take ?run s = s" by (rule take_all)
    moreover from True l have "1 \<le> ?run" by (cases s) auto
    ultimately show ?thesis using r True l by simp
  next
    case False
    then have "\<not> (1 \<le> ?run \<and> length s \<le> ?run)" using all by (cases s) auto
    with r False show ?thesis by simp
  qed
qed

lemma matchItems_start_spaces:
  "matchItems [Start, Rep isSpace 1 None True] prev s =
     (if prev = None \<and> takeWhile isSpace s \<noteq> [] then Some [[], takeWhile isSpace s] else None)"
  unfolding matchItems.simps(2)[of Start] item.case matchItems_spaces by simp

lemma matchAt_rxEnds:
  "matchAt rxEnds prev s =
     (if prev = None \<and> takeWhile isSpace s \<noteq> [] then Some [[], takeWhile isSpace s]
      else if s \<noteq> [] \<and> list_all isSpace s then Some [s, []] else None)"
  unfolding matchAt_def rxEnds_def firstSome.simps matchItems_spaces_end matchItems_start_spaces
  by simp

lemma stripTail_Cons:
  "stripTail (c # cs) = (if list_all isSpace (c # cs) then [] else c # stripTail cs)"
proof (cases "list_all isSpace cs")
  case True
  then have "dropWhile isSpace (rev cs @ [c]) = dropWhile isSpace [c]"
    by (intro dropWhile_append2) (simp add: list_all_iff)
  moreover from True have "dropWhile isSpace (rev cs) = []" by (simp add: list_all_iff)
  ultimately show ?thesis using True by (simp add: stripTail_def)
next
  case False
  then obtain x where "x \<in> set (rev cs)" "\<not> isSpace x" by (auto simp: list_all_iff)
  then have "dropWhile isSpace (rev cs @ [c]) = dropWhile isSpace (rev cs) @ [c]"
    by (rule dropWhile_append1)
  with False show ?thesis by (simp add: stripTail_def)
qed

lemma replaceAll_rxEnds_inner:
  "prev \<noteq> None \<or> takeWhile isSpace s = [] \<Longrightarrow> replaceAll rxEnds [] prev s = stripTail s"
proof (induction s arbitrary: prev)
  case Nil
  show ?case by (subst replaceAll.simps) (simp add: matchAt_rxEnds stripTail_def)
next
  case (Cons c cs)
  have m: "matchAt rxEnds prev (c # cs) = (if list_all isSpace (c # cs) then Some [c # cs, []] else None)"
    using Cons.prems by (auto simp: matchAt_rxEnds)
  show ?case
  proof (cases "list_all isSpace (c # cs)")
    case True
    with m have "matchAt rxEnds prev (c # cs) = Some [c # cs, []]" by (simp only: if_True)
    then have "replaceAll rxEnds [] prev (c # cs) = replaceAll rxEnds [] (Some (last (c # cs))) []"
      by (subst replaceAll.simps) (simp add: before_def)
    also have "\<dots> = []" by (subst replaceAll.simps) (simp add: matchAt_rxEnds)
    finally show ?thesis using True by (simp add: stripTail_Cons)
  next
    case False
    with m have "matchAt rxEnds prev (c # cs) = None" by (simp only: if_False)
    then have "replaceAll rxEnds [] prev (c # cs) = c # replaceAll rxEnds [] (Some c) cs"
      by (subst replaceAll.simps) simp
    with Cons.IH[of "Some c"] False show ?thesis by (simp add: stripTail_Cons)
  qed
qed

lemma replaceAll_rxEnds: "replaceAll rxEnds [] None s = trim s"
proof (cases "takeWhile isSpace s = []")
  case True
  then have "dropWhile isSpace s = s" by (cases s) (auto split: if_splits)
  with replaceAll_rxEnds_inner[of None s] True show ?thesis
    by (simp add: trim_def stripTail_def)
next
  case False
  let ?n = "length (takeWhile isSpace s)"
  from False have n: "?n \<noteq> 0" "s \<noteq> []" by auto
  have d: "drop ?n s = dropWhile isSpace s" by (simp add: dropWhile_eq_drop[symmetric])
  have t: "take ?n s = takeWhile isSpace s" by (metis takeWhile_eq_take)
  have "replaceAll rxEnds [] None s
        = replaceAll rxEnds [] (Some (last (takeWhile isSpace s))) (dropWhile isSpace s)"
    using False n d t by (subst replaceAll.simps) (simp add: matchAt_rxEnds before_def)
  also have "\<dots> = stripTail (dropWhile isSpace s)"
    by (rule replaceAll_rxEnds_inner) simp
  finally show ?thesis by (simp add: trim_def stripTail_def)
qed


lemma spaced_collapse: "spaced (collapse s)"
proof (induction s rule: collapse.induct)
  case 1
  show ?case by simp
next
  case (2 c cs)
  show ?case
  proof (cases "isSpace c")
    case True
    have "case collapse (dropWhile isSpace cs) of [] \<Rightarrow> True | d # _ \<Rightarrow> \<not> isSpace d"
    proof (cases "dropWhile isSpace cs")
      case Nil
      show ?thesis unfolding Nil by simp
    next
      case (Cons d r)
      then have "\<not> isSpace d" using hd_dropWhile[of isSpace cs] by auto
      then show ?thesis unfolding Cons by simp
    qed
    with True 2(1) show ?thesis by simp
  next
    case False
    with 2(2) show ?thesis by simp
  qed
qed

lemma collapse_spaced: "spaced s \<Longrightarrow> collapse s = s"
proof (induction s)
  case Nil
  show ?case by simp
next
  case (Cons c cs)
  show ?case
  proof (cases "isSpace c")
    case True
    with Cons.prems have "dropWhile isSpace cs = cs" "c = 32" by (cases cs; simp)+
    with True Cons show ?thesis by simp
  next
    case False
    with Cons show ?thesis by simp
  qed
qed

lemma spaced_suffix: "spaced (a @ b) \<Longrightarrow> spaced b"
  by (induction a) auto

lemma spaced_prefix: "spaced (a @ b) \<Longrightarrow> spaced a"
proof (induction a)
  case Nil
  show ?case by simp
next
  case (Cons c a)
  then show ?case by (cases a) auto
qed

lemma stripTail_prefix: "s = stripTail s @ rev (takeWhile isSpace (rev s))"
proof -
  have "rev (takeWhile isSpace (rev s) @ dropWhile isSpace (rev s)) = s"
    by (simp only: takeWhile_dropWhile_id rev_rev_ident)
  then have "rev (dropWhile isSpace (rev s)) @ rev (takeWhile isSpace (rev s)) = s"
    by (simp only: rev_append)
  then show ?thesis unfolding stripTail_def by (rule sym)
qed

lemma spaced_trim: "spaced s \<Longrightarrow> spaced (trim s)"
proof -
  assume "spaced s"
  then have "spaced (takeWhile isSpace s @ dropWhile isSpace s)" by simp
  then have "spaced (dropWhile isSpace s)" by (rule spaced_suffix)
  then have "spaced (stripTail (dropWhile isSpace s) @ rev (takeWhile isSpace (rev (dropWhile isSpace s))))"
    using stripTail_prefix[of "dropWhile isSpace s"] by simp
  then have "spaced (stripTail (dropWhile isSpace s))" by (rule spaced_prefix)
  then show ?thesis by (simp add: trim_def stripTail_def)
qed

lemma trim_trim: "trim (trim s) = trim s"
proof -
  let ?t = "dropWhile isSpace s"
  let ?r = "stripTail ?t"
  have r: "trim s = ?r" by (simp add: trim_def stripTail_def)
  have head: "dropWhile isSpace ?r = ?r"
  proof (cases ?r)
    case Nil
    then show ?thesis by simp
  next
    case (Cons d r')
    with stripTail_prefix[of ?t] have t: "?t = d # (r' @ rev (takeWhile isSpace (rev ?t)))" by simp
    then have "?t \<noteq> []" by (metis list.distinct(1))
    from hd_dropWhile[OF this] t have "\<not> isSpace d" by (metis list.sel(1))
    with Cons show ?thesis by simp
  qed
  have "rev ?r = dropWhile isSpace (rev ?t)" by (simp add: stripTail_def)
  then have "dropWhile isSpace (rev ?r) = rev ?r" by (simp only: dropWhile_idem)
  then have "stripTail ?r = ?r" by (simp add: stripTail_def)
  with head r show ?thesis by (simp add: trim_def stripTail_def)
qed

lemma squeezeSpaces_eq: "squeezeSpaces x = trim (collapse x)"
  by (simp add: squeezeSpaces_def replaceAll_rxSpaces replaceAll_rxEnds)

lemma squeezeSpaces_fixed: "squeezeSpaces (squeezeSpaces x) = squeezeSpaces x"
proof -
  have "spaced (trim (collapse x))" by (intro spaced_trim spaced_collapse)
  then have "collapse (trim (collapse x)) = trim (collapse x)" by (rule collapse_spaced)
  then show ?thesis by (simp add: squeezeSpaces_eq trim_trim)
qed

text \<open>
  On a text from which, once its white space is collapsed and its ends are stripped, the
  five boilerplate replacements delete nothing, a second normalization changes nothing.
\<close>

lemma cleanText_untouched:
  assumes "removeBoilerplate (squeezeSpaces x) = squeezeSpaces x"
  shows "cleanText (cleanText x) = cleanText x"
proof (cases "x = []")
  case True
  then show ?thesis by (simp add: cleanText_def)
next
  case False
  let ?w = "squeezeSpaces x"
  have tw: "trim ?w = ?w" by (simp add: squeezeSpaces_eq trim_trim)
  from False assms tw have c: "cleanText x = ?w" by (simp add: cleanText_def)
  show ?thesis
  proof (cases "?w = []")
    case True
    with c show ?thesis by (simp add: cleanText_def)
  next
    case False
    then have "cleanText ?w = trim (removeBoilerplate (squeezeSpaces ?w))"
      by (simp add: cleanText_def)
    also have "\<dots> = ?w" using assms tw by (simp add: squeezeSpaces_fixed)
    finally show ?thesis using c by simp
  qed
qed

text \<open>
  C4.  The normalizer is not idempotent.  It collapses white space first and deletes the
  boilerplate afterwards, and only strips the ends after that: deleting the page number
  from \<open>a - 1 - b\<close> leaves two blanks between \<open>a\<close> and \<open>b\<close>, which a second
  normalization collapses to one.
\<close>

theorem cleanText_not_idempotent:
  "cleanText (ascii ''a - 1 - b'') = ascii ''a  b''
   \<and> cleanText (cleanText (ascii ''a - 1 - b'')) = ascii ''a b''
   \<and> cleanText (cleanText (ascii ''a - 1 - b'')) \<noteq> cleanText (ascii ''a - 1 - b'')"
  by code_simp

section \<open>Properties of the inline-option recognizer\<close>

lemma firstSome_SomeD: "firstSome f xs = Some y \<Longrightarrow> \<exists>x\<in>set xs. f x = Some y"
  by (induction xs) (auto split: option.splits)

lemma matchItems_Rep:
  assumes "matchItems (Rep cls lo hi g # its) prev s = Some ps"
  shows "\<exists>k rest. ps = take k s # rest \<and> lo \<le> k \<and> k \<le> length (takeWhile cls s)
    \<and> (\<forall>h. hi = Some h \<longrightarrow> k \<le> h)
    \<and> matchItems its (before prev (take k s)) (drop k s) = Some rest"
proof -
  let ?top = "case hi of None \<Rightarrow> length (takeWhile cls s) | Some h \<Rightarrow> min h (length (takeWhile cls s))"
  let ?ks = "if g then rev [lo..<Suc ?top] else [lo..<Suc ?top]"
  from assms have "firstSome
      (\<lambda>k. map_option ((#) (take k s)) (matchItems its (before prev (take k s)) (drop k s))) ?ks
      = Some ps"
    by (simp add: Let_def)
  from firstSome_SomeD[OF this] obtain k where k: "k \<in> set ?ks"
    "map_option ((#) (take k s)) (matchItems its (before prev (take k s)) (drop k s)) = Some ps"
    by blast
  from k(1) have b: "lo \<le> k" "k \<le> ?top" by (auto split: if_splits)
  from b(2) have r: "k \<le> length (takeWhile cls s)" by (cases hi) auto
  from b(2) have h: "\<forall>h. hi = Some h \<longrightarrow> k \<le> h" by auto
  from k(2) obtain rest where "ps = take k s # rest"
    "matchItems its (before prev (take k s)) (drop k s) = Some rest" by auto
  with b(1) r h show ?thesis by blast
qed

lemma matchItems_Lit:
  assumes "matchItems (Lit l # its) prev s = Some ps"
  shows "\<exists>rest. ps = l # rest \<and> startsWith s l
    \<and> matchItems its (before prev l) (drop (length l) s) = Some rest"
  using assms by (auto split: if_splits)

lemma matchItems_Start:
  assumes "matchItems (Start # its) prev s = Some ps"
  shows "\<exists>rest. ps = [] # rest \<and> prev = None \<and> matchItems its prev s = Some rest"
  using assms by (auto split: if_splits)

lemma matchItems_End:
  assumes "matchItems (End # its) prev s = Some ps"
  shows "\<exists>rest. ps = [] # rest \<and> s = [] \<and> matchItems its prev s = Some rest"
  using assms by (auto split: if_splits)

lemma take_within_run:
  assumes "k \<le> length (takeWhile P s)"
  shows "length (take k s) = k" and "\<forall>c\<in>set (take k s). P c"
proof -
  have "length (takeWhile P s) \<le> length s" by (rule length_takeWhile_le)
  with assms show "length (take k s) = k" by simp
  have "take k s = take k (takeWhile P s)"
    using assms by (metis takeWhile_dropWhile_id append_eq_conv_conj take_append diff_is_0_eq take_0 append_Nil2 min.absorb2 take_take)
  then have "set (take k s) \<subseteq> set (takeWhile P s)" by (metis set_take_subset)
  then show "\<forall>c\<in>set (take k s). P c" by (auto dest: set_takeWhileD)
qed

lemma index_piece:
  assumes "1 \<le> k" "k \<le> 1" "k \<le> length (takeWhile isIndex s)"
  shows "\<exists>n. parseInt (take k s) = Some n \<and> 1 \<le> n \<and> n \<le> 4"
proof -
  from assms(1,2) have k: "k = 1" by simp
  from take_within_run(1)[OF assms(3)] k have "length (take k s) = Suc 0" by simp
  then have "\<exists>y ys. take k s = y # ys \<and> length ys = 0" by (simp only: length_Suc_conv)
  then obtain c where c1: "take k s = [c]" by (auto simp only: length_0_conv)
  with take_within_run(2)[OF assms(3)] have "isIndex c" by simp
  note c = c1 this
  then have "parseInt (take k s) = Some (c - 48)"
    by (simp add: parseInt_def allDigits_def isIndex_def isDigit_def)
  moreover from c(2) have "1 \<le> c - 48 \<and> c - 48 \<le> 4" unfolding isIndex_def by arith
  ultimately show ?thesis by blast
qed




lemma matchAt_single: "matchAt [its] prev s = matchItems its prev s"
  by (simp add: matchAt_def split: option.splits)























lemma search_SomeD:
  "search rx prev s = Some x \<Longrightarrow> \<exists>prev' s'. matchAt rx prev' s' = Some (snd x)"
proof (induction s arbitrary: prev x)
  case Nil
  then obtain z where "matchAt rx prev [] = Some z" "snd x = z" by auto
  then show ?case by blast
next
  case (Cons c cs)
  show ?case
  proof (cases "matchAt rx prev (c # cs)")
    case None
    with Cons.prems obtain y where "search rx (Some c) cs = Some y" "snd x = snd y"
      by (auto split: prod.splits)
    with Cons.IH[of "Some c" y] show ?thesis by simp
  next
    case (Some pieces)
    with Cons.prems have "snd x = pieces" by auto
    with Some show ?thesis by blast
  qed
qed

lemma digits_piece:
  assumes "1 \<le> k" "k \<le> length (takeWhile isDigit s)"
  shows "\<exists>n. parseInt (take k s) = Some n"
proof -
  from take_within_run[OF assms(2)] assms(1) have "take k s \<noteq> []" "\<forall>c\<in>set (take k s). isDigit c"
    by auto
  then have "allDigits (take k s)" by (simp add: allDigits_def list_all_iff)
  then show ?thesis by (simp add: parseInt_def)
qed

lemma standalone_index:
  assumes "search rxStandalone None line = Some x"
  shows "\<exists>n. parseInt (piece (snd x) 4) = Some n \<and> 1 \<le> n \<and> n \<le> 4"
proof -
  from search_SomeD[OF assms] obtain prev' s' where "matchAt rxStandalone prev' s' = Some (snd x)"
    by blast
  then have m: "matchItems [Start, Rep notParen 1 None False, Rep isSpace 0 None True, Lit [41],
       Rep isIndex 1 (Some 1) True, Lit [40], End] prev' s' = Some (snd x)"
    unfolding rxStandalone_def matchAt_single .
  from matchItems_Start[OF m] obtain r where 0: "snd x = [] # r"
    and m0: "matchItems [Rep notParen 1 None False, Rep isSpace 0 None True, Lit [41],
       Rep isIndex 1 (Some 1) True, Lit [40], End] prev' s' = Some r" by blast
  from matchItems_Rep[OF m0] obtain k1 r1 where 1: "r = take k1 s' # r1"
    and m1: "matchItems [Rep isSpace 0 None True, Lit [41],
       Rep isIndex 1 (Some 1) True, Lit [40], End] (before prev' (take k1 s')) (drop k1 s')
       = Some r1" by blast
  from matchItems_Rep[OF m1] obtain k2 r2 where 2: "r1 = take k2 (drop k1 s') # r2"
    and m2: "matchItems [Lit [41], Rep isIndex 1 (Some 1) True, Lit [40], End]
       (before (before prev' (take k1 s')) (take k2 (drop k1 s'))) (drop k2 (drop k1 s'))
       = Some r2" by blast
  from matchItems_Lit[OF m2] obtain r3 where 3: "r2 = [41] # r3"
    and m3: "matchItems [Rep isIndex 1 (Some 1) True, Lit [40], End]
       (before (before (before prev' (take k1 s')) (take k2 (drop k1 s'))) [41])
       (drop (length [41::nat]) (drop k2 (drop k1 s'))) = Some r3" by blast
  from matchItems_Rep[OF m3] obtain k4 r4 where
    4: "r3 = take k4 (drop (length [41::nat]) (drop k2 (drop k1 s'))) # r4" "1 \<le> k4"
    "k4 \<le> length (takeWhile isIndex (drop (length [41::nat]) (drop k2 (drop k1 s'))))"
    "\<forall>h. Some (1::nat) = Some h \<longrightarrow> k4 \<le> h" by blast
  from 4(4) have k4: "k4 \<le> 1" by simp
  have p: "piece (snd x) 4 = take k4 (drop (length [41::nat]) (drop k2 (drop k1 s')))"
    by (simp add: piece_def 0 1 2 3 4)
  show ?thesis unfolding p by (rule index_piece[OF 4(2) k4 4(3)])
qed

lemma standalone2_index:
  assumes "search rxStandalone2 None line = Some x"
  shows "\<exists>n. parseInt (piece (snd x) 2) = Some n \<and> 1 \<le> n \<and> n \<le> 4"
proof -
  from search_SomeD[OF assms] obtain prev' s' where "matchAt rxStandalone2 prev' s' = Some (snd x)"
    by blast
  then have m: "matchItems [Start, Lit [40], Rep isIndex 1 (Some 1) True, Lit [41],
       Rep isSpace 0 None True, Rep anyChar 1 None True, End] prev' s' = Some (snd x)"
    unfolding rxStandalone2_def matchAt_single .
  from matchItems_Start[OF m] obtain r where 0: "snd x = [] # r"
    and m0: "matchItems [Lit [40], Rep isIndex 1 (Some 1) True, Lit [41],
       Rep isSpace 0 None True, Rep anyChar 1 None True, End] prev' s' = Some r" by blast
  from matchItems_Lit[OF m0] obtain r1 where 1: "r = [40] # r1"
    and m1: "matchItems [Rep isIndex 1 (Some 1) True, Lit [41],
       Rep isSpace 0 None True, Rep anyChar 1 None True, End] (before prev' [40])
       (drop (length [40::nat]) s') = Some r1" by blast
  from matchItems_Rep[OF m1] obtain k2 r2 where
    2: "r1 = take k2 (drop (length [40::nat]) s') # r2" "1 \<le> k2"
    "k2 \<le> length (takeWhile isIndex (drop (length [40::nat]) s'))"
    "\<forall>h. Some (1::nat) = Some h \<longrightarrow> k2 \<le> h" by blast
  from 2(4) have k2: "k2 \<le> 1" by simp
  have p: "piece (snd x) 2 = take k2 (drop (length [40::nat]) s')"
    by (simp add: piece_def 0 1 2)
  show ?thesis unfolding p by (rule index_piece[OF 2(2) k2 2(3)])
qed

lemma qNumEnd_number:
  assumes "search rxQNumEnd None line = Some x"
  shows "\<exists>n. parseInt (piece (snd x) 1) = Some n"
proof -
  from search_SomeD[OF assms] obtain prev' s' where "matchAt rxQNumEnd prev' s' = Some (snd x)"
    by blast
  then have m: "matchItems [Lit (ascii ''.''), Rep isDigit 1 (Some 2) True, End] prev' s'
      = Some (snd x)"
    unfolding rxQNumEnd_def matchAt_single .
  from matchItems_Lit[OF m] obtain r where 0: "snd x = ascii ''.'' # r"
    and m0: "matchItems [Rep isDigit 1 (Some 2) True, End] (before prev' (ascii ''.''))
       (drop (length (ascii ''.'')) s') = Some r" by blast
  from matchItems_Rep[OF m0] obtain k1 r1 where
    1: "r = take k1 (drop (length (ascii ''.'')) s') # r1" "1 \<le> k1"
    "k1 \<le> length (takeWhile isDigit (drop (length (ascii ''.'')) s'))" by blast
  have p: "piece (snd x) 1 = take k1 (drop (length (ascii ''.'')) s')"
    by (simp add: piece_def 0 1)
  show ?thesis unfolding p by (rule digits_piece[OF 1(2,3)])
qed

lemma qNumStart_number:
  assumes "search rxQNumStart None line = Some x"
  shows "\<exists>n. parseInt (piece (snd x) 1) = Some n"
proof -
  from search_SomeD[OF assms] obtain prev' s' where "matchAt rxQNumStart prev' s' = Some (snd x)"
    by blast
  then have m: "matchItems [Start, Rep isDigit 1 (Some 2) True, Lit (ascii ''.''),
       Rep isSpace 1 (Some 1) True] prev' s' = Some (snd x)"
    unfolding rxQNumStart_def matchAt_single .
  from matchItems_Start[OF m] obtain r where 0: "snd x = [] # r"
    and m0: "matchItems [Rep isDigit 1 (Some 2) True, Lit (ascii ''.''),
       Rep isSpace 1 (Some 1) True] prev' s' = Some r" by blast
  from matchItems_Rep[OF m0] obtain k1 r1 where
    1: "r = take k1 s' # r1" "1 \<le> k1" "k1 \<le> length (takeWhile isDigit s')" by blast
  have p: "piece (snd x) 1 = take k1 s'" by (simp add: piece_def 0 1)
  show ?thesis unfolding p by (rule digits_piece[OF 1(2,3)])
qed

text \<open>
  \<open>parseInt\<close> is never \<open>NaN\<close> in the line loop: a line opens a question exactly when one of
  the two patterns for a question number matches it, and it is a standalone option, with
  an index between 1 and 4, exactly when one of the two patterns for one matches it.
\<close>

lemma questionNumberOf_None:
  "questionNumberOf line = None \<longleftrightarrow>
     search rxQNumEnd None line = None \<and> search rxQNumStart None line = None"
proof (cases "search rxQNumEnd None line")
  case None
  show ?thesis
  proof (cases "search rxQNumStart None line")
    case N: None
    with None show ?thesis by (simp add: questionNumberOf_def)
  next
    case (Some x)
    from qNumStart_number[OF Some] None Some show ?thesis
      by (auto simp: questionNumberOf_def)
  qed
next
  case (Some x)
  from qNumEnd_number[OF Some] Some show ?thesis by (auto simp: questionNumberOf_def)
qed

lemma standaloneKind_cases:
  "(standaloneKind line = StemLine
      \<and> search rxStandalone None line = None \<and> search rxStandalone2 None line = None)
   \<or> (\<exists>n t. standaloneKind line = StandaloneOption n t \<and> 1 \<le> n \<and> n \<le> 4)"
proof (cases "search rxStandalone None line")
  case None
  show ?thesis
  proof (cases "search rxStandalone2 None line")
    case N: None
    with None show ?thesis by (simp add: standaloneKind_def)
  next
    case (Some x)
    from standalone2_index[OF Some] None Some show ?thesis
      by (auto simp: standaloneKind_def)
  qed
next
  case (Some x)
  from standalone_index[OF Some] Some show ?thesis by (auto simp: standaloneKind_def)
qed



text \<open>
  Every write of the loop is inside the four option slots: a standalone option carries an
  index between 1 and 4, and no step changes the number of slots.
\<close>

lemma classifyLine_standalone:
  assumes "classifyLine inQuestion line = StandaloneOption n t"
  shows "1 \<le> n \<and> n \<le> 4"
proof -
  from assms have "standaloneKind line = StandaloneOption n t"
    by (auto simp: classifyLine_def split: option.splits if_splits)
  with standaloneKind_cases[of line] show ?thesis by auto
qed

lemma fold_update_length:
  "length (fold (\<lambda>j os. if P j then os[j := f j] else os) js os) = length os"
  by (induction js arbitrary: os) auto

lemma lineStep_slots:
  assumes "length (blockOptions st) = 4"
  shows "length (blockOptions (lineStep st l)) = 4"
proof (cases "classifyLine (currentQ st \<noteq> None) (trim l)")
  case (InlineOptions lineOptions)
  with assms show ?thesis
    by (simp add: lineStep_def Let_def fold_update_length del: upt.simps)
qed (use assms in \<open>simp_all add: lineStep_def Let_def\<close>)







text \<open>
  The line of the spec's example ends in a question number: it opens question 7, and its
  four options are recovered at the flush.
\<close>

lemma spec_example_line:
  "extractLines [ascii ''10 )1( 12 )2( 16 )3( 18 )4( .7'']
     = [(7, \<lparr>ex_stem = ascii ''10'',
             ex_options = [ascii ''10'', ascii ''12'', ascii ''16'', ascii ''18'']\<rparr>)]"
  by code_simp

section \<open>Properties of the merger and the assembler\<close>

lemma buildQuestion_fields:
  "sectionType (buildQuestion season def qNum correct found fe fs) = def_type def"
  "sectionNumber (buildQuestion season def qNum correct found fe fs) = def_section def"
  "questionNumber (buildQuestion season def qNum correct found fe fs) = qNum"
  "correctAnswer (buildQuestion season def qNum correct found fe fs) = correct"
  by (simp_all add: buildQuestion_def Let_def)

lemma sectionIdOf_build:
  "d \<in> set sectionDefs \<Longrightarrow>
   sectionIdOf (buildQuestion season d qNum correct found fe fs) = Some (def_key d)"
  by (auto simp: sectionIdOf_def buildQuestion_fields sectionDefs_def)

lemma sectionQuestions_pairs:
  assumes "d \<in> set sectionDefs"
  shows "map (\<lambda>q. (sectionIdOf q, questionNumber q)) (sectionQuestions season ak fe fs d)
         = map (Pair (Some (def_key d))) (sort (map fst (sectionAnswersOf ak d)))"
  using assms
  by (simp add: sectionQuestions_def sectionAnswersOf_def Let_def comp_def
      sectionIdOf_build buildQuestion_fields)

lemma sectionQuestions_answers:
  assumes "d \<in> set sectionDefs" "q \<in> set (sectionQuestions season ak fe fs d)"
  shows "sectionIdOf q = Some (def_key d)"
    and "questionNumber q \<in> fst ` set (sectionAnswersOf ak d)"
    and "correctAnswer q = map_of (sectionAnswersOf ak d) (questionNumber q)"
proof -
  from assms(2) obtain qNum where
    n: "qNum \<in> set (map fst (sectionAnswersOf ak d))"
    and q: "q = buildQuestion season d qNum (map_of (sectionAnswersOf ak d) qNum)
                 (fst (fs d) qNum) (fe d qNum) (snd (fs d) qNum)"
    by (auto simp: sectionQuestions_def sectionAnswersOf_def Let_def)
  show "sectionIdOf q = Some (def_key d)" unfolding q by (rule sectionIdOf_build[OF assms(1)])
  show "questionNumber q \<in> fst ` set (sectionAnswersOf ak d)"
    using n unfolding q buildQuestion_fields by simp
  show "correctAnswer q = map_of (sectionAnswersOf ak d) (questionNumber q)"
    unfolding q buildQuestion_fields by (rule refl)
qed

lemma distinct_Pair: "distinct (map (Pair a) xs) = distinct xs"
  by (simp add: distinct_map inj_on_def)

lemma goodKey_sectionAnswers: "goodKey ak \<Longrightarrow> distinct (map fst (sectionAnswersOf ak d))"
  by (auto simp: goodKey_def sectionAnswersOf_def split: option.splits)

lemma all_pairs:
  "map (\<lambda>q. (sectionIdOf q, questionNumber q))
     (concat (map (sectionQuestions season ak fe fs) sectionDefs))
   = concat (map (\<lambda>d. map (Pair (Some (def_key d))) (sort (map fst (sectionAnswersOf ak d))))
       sectionDefs)"
proof -
  have "map (\<lambda>q. (sectionIdOf q, questionNumber q))
          (concat (map (sectionQuestions season ak fe fs) sectionDefs))
        = concat (map (\<lambda>d. map (\<lambda>q. (sectionIdOf q, questionNumber q))
                           (sectionQuestions season ak fe fs d)) sectionDefs)"
    by (simp add: map_concat comp_def)
  also have "\<dots> = concat (map (\<lambda>d. map (Pair (Some (def_key d)))
                           (sort (map fst (sectionAnswersOf ak d)))) sectionDefs)"
    by (rule arg_cong[where f = concat], rule map_cong[OF refl]) (rule sectionQuestions_pairs)
  finally show ?thesis .
qed

lemma all_pairs_distinct:
  assumes "goodKey ak"
  shows "distinct (map (\<lambda>q. (sectionIdOf q, questionNumber q))
           (concat (map (sectionQuestions season ak fe fs) sectionDefs)))"
  unfolding all_pairs using goodKey_sectionAnswers[OF assms]
  by (auto simp: sectionDefs_def distinct_Pair)

lemma section_key_defs: "\<exists>d\<in>set sectionDefs. def_key d = k"
  by (cases k) (simp_all add: sectionDefs_def)

text \<open>
  C1.  For every exam text and whatever the extractors return, \<open>parseExam\<close> returns an
  exam whose questions are indexed exactly by the pairs of section and question number
  of the decoded answer key: no pair twice, a question for a pair if and only if the key
  has it, and the correct answer of each question is the key's value for its pair, one of
  1, 2, 3, 4.
\<close>

theorem parseExam_keyed:
  "\<exists>ak ex. parseAnswerKey examText = Inr ak
      \<and> parseExam season examText fromExam fromSolution = Inr ex
      \<and> distinct (map (\<lambda>q. (sectionIdOf q, questionNumber q)) (questions ex))
      \<and> (\<forall>k n. (\<exists>q\<in>set (questions ex). sectionIdOf q = Some k \<and> questionNumber q = n)
                 \<longleftrightarrow> (\<exists>m. map_of ak k = Some m \<and> n \<in> fst ` set m))
      \<and> (\<forall>q\<in>set (questions ex). \<exists>k m a. sectionIdOf q = Some k \<and> map_of ak k = Some m
                 \<and> map_of m (questionNumber q) = Some a \<and> correctAnswer q = Some a
                 \<and> a \<in> {1, 2, 3, 4})"
proof -
  from parseAnswerKey_good obtain ak where
    ak: "parseAnswerKey examText = Inr ak" and good: "goodKey ak" by blast
  let ?qs = "concat (map (sectionQuestions season ak fromExam fromSolution) sectionDefs)"
  let ?ex = "assembleExam season ?qs"
  have ex: "parseExam season examText fromExam fromSolution = Inr ?ex"
    by (simp add: parseExam_def ak)
  have qs: "questions ?ex = ?qs" by (simp add: assembleExam_def)
  have d: "distinct (map (\<lambda>q. (sectionIdOf q, questionNumber q)) ?qs)"
    by (rule all_pairs_distinct[OF good])
  have mem: "q \<in> set ?qs \<longleftrightarrow> (\<exists>d\<in>set sectionDefs. q \<in> set (sectionQuestions season ak fromExam fromSolution d))"
    for q by auto
  have some: "\<exists>m. map_of ak (def_key d) = Some m \<and> sectionAnswersOf ak d = m"
    if "n \<in> fst ` set (sectionAnswersOf ak d)" for d n
    using that by (cases "map_of ak (def_key d)") (auto simp: sectionAnswersOf_def)
  have iff: "(\<exists>q\<in>set ?qs. sectionIdOf q = Some k \<and> questionNumber q = n)
             \<longleftrightarrow> (\<exists>m. map_of ak k = Some m \<and> n \<in> fst ` set m)" for k n
  proof
    assume "\<exists>q\<in>set ?qs. sectionIdOf q = Some k \<and> questionNumber q = n"
    then obtain q d where q: "d \<in> set sectionDefs"
      "q \<in> set (sectionQuestions season ak fromExam fromSolution d)"
      "sectionIdOf q = Some k" "questionNumber q = n" using mem by blast
    from sectionQuestions_answers(1,2)[OF q(1,2)] q(3,4)
    have "def_key d = k" "n \<in> fst ` set (sectionAnswersOf ak d)" by auto
    with some[of n d] show "\<exists>m. map_of ak k = Some m \<and> n \<in> fst ` set m" by auto
  next
    assume "\<exists>m. map_of ak k = Some m \<and> n \<in> fst ` set m"
    then obtain m where m: "map_of ak k = Some m" "n \<in> fst ` set m" by blast
    from section_key_defs[of k] obtain d where dd: "d \<in> set sectionDefs" "def_key d = k" by blast
    with m have sa: "sectionAnswersOf ak d = m" by (simp add: sectionAnswersOf_def)
    have "(Some k, n) \<in> set (map (\<lambda>q. (sectionIdOf q, questionNumber q))
             (sectionQuestions season ak fromExam fromSolution d))"
      unfolding sectionQuestions_pairs[OF dd(1)] sa dd(2) using m(2) by auto
    then obtain q where "q \<in> set (sectionQuestions season ak fromExam fromSolution d)"
      "sectionIdOf q = Some k" "questionNumber q = n" by auto
    with dd(1) show "\<exists>q\<in>set ?qs. sectionIdOf q = Some k \<and> questionNumber q = n"
      using mem by blast
  qed
  have ans: "\<exists>k m a. sectionIdOf q = Some k \<and> map_of ak k = Some m
                 \<and> map_of m (questionNumber q) = Some a \<and> correctAnswer q = Some a
                 \<and> a \<in> {1, 2, 3, 4}" if "q \<in> set ?qs" for q
  proof -
    from that obtain d where q: "d \<in> set sectionDefs"
      "q \<in> set (sectionQuestions season ak fromExam fromSolution d)" using mem by blast
    note f = sectionQuestions_answers[OF q]
    from some[OF f(2)] obtain m where m: "map_of ak (def_key d) = Some m"
      "sectionAnswersOf ak d = m" by blast
    from f(2) m(2) obtain a where a: "map_of m (questionNumber q) = Some a"
      by (metis domD dom_map_of_conv_image_fst)
    with good m(1) have "1 \<le> a \<and> a \<le> 4" unfolding goodKey_def by blast
    then have "a \<in> {1, 2, 3, 4}" by auto
    with f(1,3) m a show ?thesis by auto
  qed
  show ?thesis
    apply (rule exI[of _ ak], rule exI[of _ ?ex])
    unfolding qs using ak ex d iff ans by blast
qed


theorem parseExam_keyed_witness:
  "\<exists>ex. parseExam (ascii ''spring-2025'')
          (answerKeyMarker @ [10] @ markerVerbal1 @ [10] @ ascii ''1234567891011'' @ [10] @
           ascii ''11115111111'')
          (\<lambda>d. Map.empty) (\<lambda>d. (Map.empty, Map.empty)) = Inr ex
      \<and> (\<exists>q\<in>set (questions ex). sectionIdOf q = Some Verbal1 \<and> questionNumber q = 6)
      \<and> \<not> (\<exists>q\<in>set (questions ex). sectionIdOf q = Some Verbal1 \<and> questionNumber q = 5)"
proof -
  let ?t = "answerKeyMarker @ [10] @ markerVerbal1 @ [10] @ ascii ''1234567891011'' @ [10] @
           ascii ''11115111111''"
  let ?m = "[(1, 1), (2, 1), (3, 1), (4, 1), (6, 1), (7, 1), (8, 1), (9, 1),
                     (10, 1), (11::nat, 1::nat)]"
  have e: "parseAnswerKey ?t = Inr [(Verbal1, ?m)]" by code_simp
  from parseExam_keyed[of ?t "ascii ''spring-2025''" "\<lambda>d. Map.empty" "\<lambda>d. (Map.empty, Map.empty)"]
  obtain ak ex where ak: "parseAnswerKey ?t = Inr ak"
    and ex: "parseExam (ascii ''spring-2025'') ?t (\<lambda>d. Map.empty) (\<lambda>d. (Map.empty, Map.empty)) = Inr ex"
    and iff: "\<forall>k n. (\<exists>q\<in>set (questions ex). sectionIdOf q = Some k \<and> questionNumber q = n)
                 \<longleftrightarrow> (\<exists>m. map_of ak k = Some m \<and> n \<in> fst ` set m)"
    by blast
  from ak e have a: "ak = [(Verbal1, ?m)]" by simp
  have "\<exists>m. map_of ak Verbal1 = Some m \<and> 6 \<in> fst ` set m" unfolding a by simp
  with iff have 1: "\<exists>q\<in>set (questions ex). sectionIdOf q = Some Verbal1 \<and> questionNumber q = 6"
    by blast
  have "\<not> (\<exists>m. map_of ak Verbal1 = Some m \<and> 5 \<in> fst ` set m)" unfolding a by simp
  with iff have 2: "\<not> (\<exists>q\<in>set (questions ex). sectionIdOf q = Some Verbal1 \<and> questionNumber q = 5)"
    by blast
  from ex 1 2 show ?thesis by blast
qed




lemma sectionDefs_pair:
  assumes "d \<in> set sectionDefs" "d' \<in> set sectionDefs"
    "def_type d' = def_type d" "def_section d' = def_section d"
  shows "d' = d"
  using assms by (auto simp: sectionDefs_def)

lemma buildQuestion_noText:
  assumes "noText fe" "noText fs"
  shows "options (buildQuestion season d qNum correct found fe fs)
           = map (placeholderOption (if def_lang d = He then hebrewLabels else englishLabels))
               [1, 2, 3, 4]"
    and "stem (buildQuestion season d qNum correct found fe fs) = placeholderStem d qNum"
    and "\<not> hasFullText (buildQuestion season d qNum correct found fe fs)"
    and "explanation (buildQuestion season d qNum correct found fe fs)
           = cleanExplanation (case found of None \<Rightarrow> [] | Some e \<Rightarrow> e)"
  using assms
  by (auto simp: buildQuestion_def noText_def Let_def split: option.splits)

lemma keyed_number:
  assumes "map_of decoded (def_key d) = Some m" "map_of m qNum = Some a"
  shows "qNum \<in> set (sort (map fst (sectionAnswersOf decoded d)))"
    and "map_of (sectionAnswersOf decoded d) qNum = Some a"
proof -
  from assms(1) have s: "sectionAnswersOf decoded d = m" by (simp add: sectionAnswersOf_def)
  from assms(2) have "(qNum, a) \<in> set m" by (rule map_of_SomeD)
  then have "qNum \<in> fst ` set m" by force
  then show "qNum \<in> set (sort (map fst (sectionAnswersOf decoded d)))" unfolding s by simp
  show "map_of (sectionAnswersOf decoded d) qNum = Some a" unfolding s by (rule assms(2))
qed

lemma sectionQuestions_eq:
  "sectionQuestions season decoded fromExam fromSolution d =
     map (\<lambda>qNum. buildQuestion season d qNum (map_of (sectionAnswersOf decoded d) qNum)
                    (fst (fromSolution d) qNum) (fromExam d qNum) (snd (fromSolution d) qNum))
       (sort (map fst (sectionAnswersOf decoded d)))"
  by (simp add: sectionQuestions_def sectionAnswersOf_def Let_def)

lemma officialSectionQuestions_eq:
  "officialSectionQuestions decoded explanations d =
     map (\<lambda>qNum. officialQuestion d qNum (map_of (sectionAnswersOf decoded d) qNum)
                    (explanations d qNum))
       (sort (map fst (sectionAnswersOf decoded d)))"
  by (simp add: officialSectionQuestions_def sectionAnswersOf_def Let_def)

lemma officialQuestion_fields:
  "oq_sectionType (officialQuestion d qNum correct found) = def_type d"
  "oq_sectionNumber (officialQuestion d qNum correct found) = def_section d"
  "oq_questionNumber (officialQuestion d qNum correct found) = qNum"
  "oq_options (officialQuestion d qNum correct found)
     = map (placeholderOption hebrewLabels) [1, 2, 3, 4]"
  by (simp_all add: officialQuestion_def Let_def)

lemma officialQuestion_synthesized:
  assumes "1 \<le> a" "a \<le> 4"
  shows "oq_correctAnswerLabel (officialQuestion d qNum (Some a) found)
           = Some (hebrewLabels ! (a - 1))"
    and "found = None \<or> found = Some [] \<Longrightarrow>
         oq_explanation (officialQuestion d qNum (Some a) found)
           = correctIs @ hebrewLabels ! (a - 1)"
  using assms
  by (auto simp: officialQuestion_def Let_def labelAt_def shown_def hebrewLabels_def)

text \<open>
  C7, as amended.  Take a question that the decoded key holds, and let neither the exam
  extractor nor the solution extractor yield a stem or an option for it.  Then
  \<open>parseExam\<close> of improved-parser.cjs still emits a question for it, and the question
  emitted for that section and number has the four placeholder options, the placeholder
  stem, the answer of the key and \<open>hasFullText\<close> false; its explanation is the cleaned
  explanation of the solution file, the empty text when there is none.  \<open>parseExam\<close> of
  official-parser.cjs emits a question for it too, with the four placeholder options, and,
  when the solution file has no explanation, with the sentence that names the label of
  the correct option.
\<close>

theorem no_extraction_placeholder:
  assumes "parseAnswerKey examText = Inr decoded"
    and "d \<in> set sectionDefs"
    and "map_of decoded (def_key d) = Some m"
    and "map_of m qNum = Some a"
  shows
    "(noText (fromExam d qNum) \<and> noText (snd (fromSolution d) qNum) \<longrightarrow>
       (\<exists>ex. parseExam season examText fromExam fromSolution = Inr ex
          \<and> (\<exists>q\<in>set (questions ex).
                sectionType q = def_type d \<and> sectionNumber q = def_section d
                \<and> questionNumber q = qNum)
          \<and> (\<forall>q\<in>set (questions ex).
                sectionType q = def_type d \<and> sectionNumber q = def_section d
                \<and> questionNumber q = qNum \<longrightarrow>
                options q
                  = map (placeholderOption
                           (if def_lang d = He then hebrewLabels else englishLabels))
                      [1, 2, 3, 4]
                \<and> stem q = placeholderStem d qNum
                \<and> \<not> hasFullText q
                \<and> correctAnswer q = Some a
                \<and> explanation q
                    = cleanExplanation
                        (case fst (fromSolution d) qNum of None \<Rightarrow> [] | Some e \<Rightarrow> e))))
     \<and> (\<exists>qs. officialParseExam examText explanations = Inr qs
          \<and> (\<exists>q\<in>set qs.
                oq_sectionType q = def_type d \<and> oq_sectionNumber q = def_section d
                \<and> oq_questionNumber q = qNum)
          \<and> (\<forall>q\<in>set qs.
                oq_sectionType q = def_type d \<and> oq_sectionNumber q = def_section d
                \<and> oq_questionNumber q = qNum \<longrightarrow>
                oq_options q = map (placeholderOption hebrewLabels) [1, 2, 3, 4]
                \<and> oq_correctAnswerLabel q = Some (hebrewLabels ! (a - 1))
                \<and> (explanations d qNum = None \<or> explanations d qNum = Some [] \<longrightarrow>
                      oq_explanation q = correctIs @ hebrewLabels ! (a - 1))))"
proof (intro conjI impI)
  note k = keyed_number[OF assms(3,4)]
  assume n: "noText (fromExam d qNum) \<and> noText (snd (fromSolution d) qNum)"
  let ?qs = "concat (map (sectionQuestions season decoded fromExam fromSolution) sectionDefs)"
  let ?ex = "assembleExam season ?qs"
  let ?b = "\<lambda>d qNum. buildQuestion season d qNum (map_of (sectionAnswersOf decoded d) qNum)
                    (fst (fromSolution d) qNum) (fromExam d qNum) (snd (fromSolution d) qNum)"
  have ex: "parseExam season examText fromExam fromSolution = Inr ?ex"
    by (simp add: parseExam_def assms(1))
  have qs: "questions ?ex = ?qs" by (simp add: assembleExam_def)
  have "?b d qNum \<in> set (sectionQuestions season decoded fromExam fromSolution d)"
    unfolding sectionQuestions_eq set_map using k(1) by (rule imageI)
  with assms(2) have 1: "?b d qNum \<in> set ?qs" by auto
  have 2: "\<exists>q\<in>set ?qs. sectionType q = def_type d \<and> sectionNumber q = def_section d
                \<and> questionNumber q = qNum"
    by (rule bexI[OF _ 1]) (simp add: buildQuestion_fields)
  have 3: "q = ?b d qNum"
    if "q \<in> set ?qs" "sectionType q = def_type d \<and> sectionNumber q = def_section d
                \<and> questionNumber q = qNum" for q
  proof -
    from that(1) obtain d' where d': "d' \<in> set sectionDefs"
      "q \<in> set (sectionQuestions season decoded fromExam fromSolution d')" by auto
    from d'(2) obtain n' where n': "q = ?b d' n'" unfolding sectionQuestions_eq by auto
    from that(2) have "def_type d' = def_type d" "def_section d' = def_section d" "n' = qNum"
      unfolding n' buildQuestion_fields by simp_all
    with sectionDefs_pair[OF assms(2) d'(1)] n' show ?thesis by simp
  qed
  have 4: "options q
                  = map (placeholderOption
                           (if def_lang d = He then hebrewLabels else englishLabels))
                      [1, 2, 3, 4]
                \<and> stem q = placeholderStem d qNum
                \<and> \<not> hasFullText q
                \<and> correctAnswer q = Some a
                \<and> explanation q
                    = cleanExplanation
                        (case fst (fromSolution d) qNum of None \<Rightarrow> [] | Some e \<Rightarrow> e)"
    if "q \<in> set ?qs" "sectionType q = def_type d \<and> sectionNumber q = def_section d
                \<and> questionNumber q = qNum" for q
    unfolding 3[OF that] using buildQuestion_noText[of "fromExam d qNum" "snd (fromSolution d) qNum"] n k(2)
    by (simp add: buildQuestion_fields)
  show "\<exists>ex. parseExam season examText fromExam fromSolution = Inr ex
          \<and> (\<exists>q\<in>set (questions ex).
                sectionType q = def_type d \<and> sectionNumber q = def_section d
                \<and> questionNumber q = qNum)
          \<and> (\<forall>q\<in>set (questions ex).
                sectionType q = def_type d \<and> sectionNumber q = def_section d
                \<and> questionNumber q = qNum \<longrightarrow>
                options q
                  = map (placeholderOption
                           (if def_lang d = He then hebrewLabels else englishLabels))
                      [1, 2, 3, 4]
                \<and> stem q = placeholderStem d qNum
                \<and> \<not> hasFullText q
                \<and> correctAnswer q = Some a
                \<and> explanation q
                    = cleanExplanation
                        (case fst (fromSolution d) qNum of None \<Rightarrow> [] | Some e \<Rightarrow> e))"
    apply (rule exI[of _ ?ex])
    unfolding qs using ex 2 4 by blast
next
  note k = keyed_number[OF assms(3,4)]
  from parseAnswerKey_good[of examText] assms(1) have "goodKey decoded" by auto
  with assms(3,4) have a: "1 \<le> a" "a \<le> 4" unfolding goodKey_def by blast+
  let ?qs = "concat (map (officialSectionQuestions decoded explanations) sectionDefs)"
  let ?b = "\<lambda>d qNum. officialQuestion d qNum (map_of (sectionAnswersOf decoded d) qNum)
                    (explanations d qNum)"
  have ex: "officialParseExam examText explanations = Inr ?qs"
    by (simp add: officialParseExam_def assms(1))
  have "?b d qNum \<in> set (officialSectionQuestions decoded explanations d)"
    unfolding officialSectionQuestions_eq set_map using k(1) by (rule imageI)
  with assms(2) have 1: "?b d qNum \<in> set ?qs" by auto
  have 2: "\<exists>q\<in>set ?qs. oq_sectionType q = def_type d \<and> oq_sectionNumber q = def_section d
                \<and> oq_questionNumber q = qNum"
    by (rule bexI[OF _ 1]) (simp add: officialQuestion_fields)
  have 3: "q = ?b d qNum"
    if "q \<in> set ?qs" "oq_sectionType q = def_type d \<and> oq_sectionNumber q = def_section d
                \<and> oq_questionNumber q = qNum" for q
  proof -
    from that(1) obtain d' where d': "d' \<in> set sectionDefs"
      "q \<in> set (officialSectionQuestions decoded explanations d')" by auto
    from d'(2) obtain n' where n': "q = ?b d' n'" unfolding officialSectionQuestions_eq by auto
    from that(2) have "def_type d' = def_type d" "def_section d' = def_section d" "n' = qNum"
      unfolding n' officialQuestion_fields by simp_all
    with sectionDefs_pair[OF assms(2) d'(1)] n' show ?thesis by simp
  qed
  have 4: "oq_options q = map (placeholderOption hebrewLabels) [1, 2, 3, 4]
                \<and> oq_correctAnswerLabel q = Some (hebrewLabels ! (a - 1))
                \<and> (explanations d qNum = None \<or> explanations d qNum = Some [] \<longrightarrow>
                      oq_explanation q = correctIs @ hebrewLabels ! (a - 1))"
    if "q \<in> set ?qs" "oq_sectionType q = def_type d \<and> oq_sectionNumber q = def_section d
                \<and> oq_questionNumber q = qNum" for q
    unfolding 3[OF that] k(2)
    using officialQuestion_synthesized[OF a, where d = d and qNum = qNum and found = "explanations d qNum"]
    by (simp add: officialQuestion_fields)
  show "\<exists>qs. officialParseExam examText explanations = Inr qs
          \<and> (\<exists>q\<in>set qs.
                oq_sectionType q = def_type d \<and> oq_sectionNumber q = def_section d
                \<and> oq_questionNumber q = qNum)
          \<and> (\<forall>q\<in>set qs.
                oq_sectionType q = def_type d \<and> oq_sectionNumber q = def_section d
                \<and> oq_questionNumber q = qNum \<longrightarrow>
                oq_options q = map (placeholderOption hebrewLabels) [1, 2, 3, 4]
                \<and> oq_correctAnswerLabel q = Some (hebrewLabels ! (a - 1))
                \<and> (explanations d qNum = None \<or> explanations d qNum = Some [] \<longrightarrow>
                      oq_explanation q = correctIs @ hebrewLabels ! (a - 1)))"
    apply (rule exI[of _ ?qs])
    using ex 2 4 by blast
qed


text \<open>
  A key with one answer, 2 for question 1 of the first verbal section, an exam extractor
  that returns an empty block for the question, and no solution file.
\<close>

theorem no_extraction_placeholder_witness:
  "parseAnswerKey
     (answerKeyMarker @ [10] @ markerVerbal1 @ [10] @ ascii ''12345678910'' @ [10] @
      ascii ''2'' @ [10] @ scoringMarker)
   = Inr [(Verbal1, [(1, 2)])]
   \<and> noText (Some \<lparr>ex_stem = [], ex_options = [[], [], [], []]\<rparr>) \<and> noText None
   \<and> (\<exists>ex q. parseExam (ascii ''spring-2025'')
           (answerKeyMarker @ [10] @ markerVerbal1 @ [10] @ ascii ''12345678910'' @ [10] @
            ascii ''2'' @ [10] @ scoringMarker)
           (\<lambda>d. [1 \<mapsto> \<lparr>ex_stem = [], ex_options = [[], [], [], []]\<rparr>])
           (\<lambda>d. (Map.empty, Map.empty)) = Inr ex
         \<and> q \<in> set (questions ex) \<and> questionNumber q = 1
         \<and> stem q = placeholderStem (sectionDefs ! 0) 1 \<and> length (options q) = 4
         \<and> \<not> hasFullText q \<and> correctAnswer q = Some 2 \<and> explanation q = [])
   \<and> (\<exists>qs q. officialParseExam
           (answerKeyMarker @ [10] @ markerVerbal1 @ [10] @ ascii ''12345678910'' @ [10] @
            ascii ''2'' @ [10] @ scoringMarker)
           (\<lambda>d. Map.empty) = Inr qs
         \<and> q \<in> set qs \<and> oq_questionNumber q = 1 \<and> length (oq_options q) = 4
         \<and> oq_explanation q = correctIs @ [1489])"
proof -
  let ?t = "answerKeyMarker @ [10] @ markerVerbal1 @ [10] @ ascii ''12345678910'' @ [10] @
            ascii ''2'' @ [10] @ scoringMarker"
  let ?b = "\<lparr>ex_stem = [], ex_options = [[], [], [], []]\<rparr>"
  let ?fe = "\<lambda>d::section_def. [1::nat \<mapsto> ?b]"
  let ?fs = "\<lambda>d::section_def. (Map.empty :: nat \<rightharpoonup> jstring, Map.empty :: nat \<rightharpoonup> extracted)"
  let ?d = "sectionDefs ! 0"
  have key: "parseAnswerKey ?t = Inr [(Verbal1, [(1, 2)])]" by code_simp
  have d: "?d \<in> set sectionDefs" by (simp add: sectionDefs_def)
  have m: "map_of [(Verbal1, [(1::nat, 2::nat)])] (def_key ?d) = Some [(1, 2)]"
    by (simp add: sectionDefs_def)
  have a: "map_of [(1::nat, 2::nat)] 1 = Some 2" by simp
  have n: "noText (Some ?b)" "noText None" by (simp_all add: noText_def)
  have c: "cleanExplanation [] = []" by (simp add: cleanExplanation_def)
  have l: "hebrewLabels ! (2 - 1) = [1489]" by (simp add: hebrewLabels_def)
  note t = no_extraction_placeholder[OF key d m a, where fromExam = ?fe and fromSolution = ?fs
      and season = "ascii ''spring-2025''" and explanations = "\<lambda>d. Map.empty"]
  from t n obtain ex q where 1:
    "parseExam (ascii ''spring-2025'') ?t ?fe ?fs = Inr ex" "q \<in> set (questions ex)"
    "sectionType q = def_type ?d \<and> sectionNumber q = def_section ?d \<and> questionNumber q = 1"
    and all: "\<forall>q\<in>set (questions ex).
                sectionType q = def_type ?d \<and> sectionNumber q = def_section ?d
                \<and> questionNumber q = 1 \<longrightarrow>
                options q
                  = map (placeholderOption
                           (if def_lang ?d = He then hebrewLabels else englishLabels))
                      [1, 2, 3, 4]
                \<and> stem q = placeholderStem ?d 1
                \<and> \<not> hasFullText q
                \<and> correctAnswer q = Some 2
                \<and> explanation q
                    = cleanExplanation
                        (case fst (?fs ?d) 1 of None \<Rightarrow> [] | Some e \<Rightarrow> e)"
    by (simp only: fun_upd_same snd_conv simp_thms) blast
  from all 1(2,3) c have 2: "questionNumber q = 1 \<and> stem q = placeholderStem ?d 1
      \<and> length (options q) = 4 \<and> \<not> hasFullText q \<and> correctAnswer q = Some 2
      \<and> explanation q = []" by auto
  from t obtain qs oq where 3:
    "officialParseExam ?t (\<lambda>d. Map.empty) = Inr qs" "oq \<in> set qs"
    "oq_sectionType oq = def_type ?d \<and> oq_sectionNumber oq = def_section ?d
       \<and> oq_questionNumber oq = 1"
    and oall: "\<forall>q\<in>set qs.
                oq_sectionType q = def_type ?d \<and> oq_sectionNumber q = def_section ?d
                \<and> oq_questionNumber q = 1 \<longrightarrow>
                oq_options q = map (placeholderOption hebrewLabels) [1, 2, 3, 4]
                \<and> oq_correctAnswerLabel q = Some (hebrewLabels ! (2 - 1))
                \<and> (Map.empty (1::nat) = (None :: jstring option) \<or> Map.empty (1::nat) = Some ([] :: jstring) \<longrightarrow>
                      oq_explanation q = correctIs @ hebrewLabels ! (2 - 1))"
    by blast
  from oall 3(2,3) l have 4: "oq_questionNumber oq = 1 \<and> length (oq_options oq) = 4
      \<and> oq_explanation oq = correctIs @ [1489]" by auto
  from key n 1(1,2) 2 3(1,2) 4 show ?thesis by blast
qed

text \<open>
  C7 as stated fails in improved-parser.cjs: without an explanation in the solution file
  the explanation of the emitted question is empty and does not name the label of the
  correct option.
\<close>

theorem no_extraction_placeholder_counterexample:
  "map_sum id (\<lambda>ex. map (\<lambda>q. (questionNumber q, correctAnswer q, hasFullText q, explanation q))
                       (questions ex))
     (parseExam (ascii ''spring-2025'')
        (answerKeyMarker @ [10] @ markerVerbal1 @ [10] @ ascii ''12345678910'' @ [10] @
         ascii ''2'' @ [10] @ scoringMarker)
        (\<lambda>d. Map.empty) (\<lambda>d. (Map.empty, Map.empty)))
   = Inr [(1, Some 2, False, [])]
   \<and> labelAt hebrewLabels (2 - 1) = Some [1489]
   \<and> \<not> includesStr [] [1489]"
  by code_simp

lemma count_by_number:
  "\<forall>q\<in>set qs. sectionNumber q = 1 \<or> sectionNumber q = 2 \<Longrightarrow>
   length (filter (\<lambda>q. sectionType q = t) qs) = groupCount qs t 1 + groupCount qs t 2"
  by (induction qs) (auto simp: groupCount_def)

lemma count_by_type:
  "length qs = length (filter (\<lambda>q. sectionType q = Verbal) qs)
     + length (filter (\<lambda>q. sectionType q = Quantitative) qs)
     + length (filter (\<lambda>q. sectionType q = English) qs)"
proof (induction qs)
  case Nil
  show ?case by simp
next
  case (Cons q qs)
  then show ?case by (cases "sectionType q") simp_all
qed

lemma parseExam_numbers:
  assumes "parseExam season examText fromExam fromSolution = Inr ex"
  shows "\<forall>q\<in>set (questions ex). sectionNumber q = 1 \<or> sectionNumber q = 2"
proof -
  from assms obtain ak where
    ex: "ex = assembleExam season
               (concat (map (sectionQuestions season ak fromExam fromSolution) sectionDefs))"
    by (auto simp: parseExam_def split: sum.splits)
  have "sectionNumber q = 1 \<or> sectionNumber q = 2"
    if "d \<in> set sectionDefs" "q \<in> set (sectionQuestions season ak fromExam fromSolution d)"
    for d q
  proof -
    from that(2) have "sectionNumber q = def_section d"
      by (auto simp: sectionQuestions_def Let_def buildQuestion_fields)
    with that(1) show ?thesis by (auto simp: sectionDefs_def)
  qed
  then show ?thesis unfolding ex by (auto simp: assembleExam_def)
qed

text \<open>
  C9, as amended.  The exam document carries one count per section type; each is the sum
  of the counts of the two groups of that type, section numbers 1 and 2, and the three add
  up to the total.
\<close>

theorem section_counts_by_type:
  assumes "parseExam season examText fromExam fromSolution = Inr ex"
  shows "verbal (sections_of ex)
           = groupCount (questions ex) Verbal 1 + groupCount (questions ex) Verbal 2
       \<and> quantitative (sections_of ex)
           = groupCount (questions ex) Quantitative 1 + groupCount (questions ex) Quantitative 2
       \<and> english (sections_of ex)
           = groupCount (questions ex) English 1 + groupCount (questions ex) English 2
       \<and> totalQuestions ex
           = verbal (sections_of ex) + quantitative (sections_of ex) + english (sections_of ex)"
proof -
  from assms obtain qs where ex: "ex = assembleExam season qs"
    by (auto simp: parseExam_def split: sum.splits)
  note n = parseExam_numbers[OF assms]
  have q: "questions ex = qs" by (simp add: ex assembleExam_def)
  show ?thesis
    using count_by_number[OF n, of Verbal] count_by_number[OF n, of Quantitative]
      count_by_number[OF n, of English] count_by_type[of qs]
    by (simp add: ex assembleExam_def)
qed

theorem section_counts_by_type_witness:
  "\<exists>ex. parseExam (ascii ''spring-2025'')
          (answerKeyMarker @ [10] @ markerVerbal1 @ [10] @ ascii ''1234567891011'' @ [10] @
           ascii ''10000000000'' @ [10] @ markerVerbal2 @ [10] @ ascii ''1234567891011'' @ [10] @
           ascii ''20000000000'')
          (\<lambda>d. Map.empty) (\<lambda>d. (Map.empty, Map.empty)) = Inr ex
      \<and> verbal (sections_of ex)
           = groupCount (questions ex) Verbal 1 + groupCount (questions ex) Verbal 2
      \<and> totalQuestions ex = 2"
proof -
  let ?t = "answerKeyMarker @ [10] @ markerVerbal1 @ [10] @ ascii ''1234567891011'' @ [10] @
           ascii ''10000000000'' @ [10] @ markerVerbal2 @ [10] @ ascii ''1234567891011'' @ [10] @
           ascii ''20000000000''"
  let ?p = "parseExam (ascii ''spring-2025'') ?t (\<lambda>d. Map.empty) (\<lambda>d. (Map.empty, Map.empty))"
  have t: "map_sum id totalQuestions ?p = Inr 2" by code_simp
  then obtain ex where ex: "?p = Inr ex" "totalQuestions ex = 2" by (cases ?p) auto
  from section_counts_by_type[OF ex(1)] ex show ?thesis by blast
qed

text \<open>
  C9 as stated fails: with one keyed question in each of the two verbal sections the
  document records the count 2 for verbal, and each of the groups (verbal, 1) and
  (verbal, 2) has 1 question.
\<close>

theorem section_counts_by_type_counterexample:
  "map_sum id (\<lambda>ex. (verbal (sections_of ex), groupCount (questions ex) Verbal 1,
                      groupCount (questions ex) Verbal 2))
     (parseExam (ascii ''spring-2025'')
        (answerKeyMarker @ [10] @ markerVerbal1 @ [10] @ ascii ''1234567891011'' @ [10] @
         ascii ''10000000000'' @ [10] @ markerVerbal2 @ [10] @ ascii ''1234567891011'' @ [10] @
         ascii ''20000000000'')
        (\<lambda>d. Map.empty) (\<lambda>d. (Map.empty, Map.empty)))
   = Inr (2, 1, 1)"
  by code_simp

end
